theory Spec2Isabelle
  imports Main "HOL-Library.Sublist"
begin

section \<open>Values of the router\<close>

text \<open>
  A parameter object of the source is a plain JavaScript object from names to strings:
  its own enumerable properties, in insertion order and without repeated names, over
  the prototype \<open>Object.prototype\<close>. The matcher can also store what a read of
  another parameter object gave (line 34 copies \<open>rootParams[paramName]\<close> whether or
  not the name is there), so a property value is a string, undefined, or a member of
  \<open>Object.prototype\<close>, which \<open>Inherited\<close> names.
\<close>

datatype jsval = Undefined | Str string | Inherited string

type_synonym params = "(string \<times> jsval) list"

definition ownKeys :: "params \<Rightarrow> string list" where
  "ownKeys ps = map fst ps"

text \<open>
  The members of \<open>Object.prototype\<close>, none of them enumerable: the seven of the
  language standard and the five that the engines add.
\<close>

definition objectPrototypeNames :: "string list" where
  "objectPrototypeNames =
     [''constructor'', ''toString'', ''toLocaleString'', ''valueOf'', ''hasOwnProperty'',
      ''isPrototypeOf'', ''propertyIsEnumerable'', ''__proto__'', ''__defineGetter__'',
      ''__defineSetter__'', ''__lookupGetter__'', ''__lookupSetter__'']"

text \<open>
  The read \<open>params[name]\<close>: the own property if there is one, else the member of
  \<open>Object.prototype\<close> of that name if there is one, else undefined.
\<close>

definition getProp :: "params \<Rightarrow> string \<Rightarrow> jsval" where
  "getProp ps k =
     (case map_of ps k of
        Some v \<Rightarrow> v
      | None \<Rightarrow> if k \<in> set objectPrototypeNames then Inherited k else Undefined)"

text \<open>
  The assignment \<open>params[name] = value\<close>: an own property is overwritten in place, a
  new one is appended. The name \<open>__proto__\<close> is an accessor of the prototype when the
  object has no own property of that name: its setter ignores a value that is not an
  object and creates no property. (Line 34 assigns under a name what the deepest
  parameters hold under the same name, which for this name is a string, undefined
  or \<open>Object.prototype\<close> itself, unless the path matcher produced an own property
  \<open>__proto__\<close> holding another object.)
\<close>

fun setProp :: "params \<Rightarrow> string \<Rightarrow> jsval \<Rightarrow> params" where
  "setProp [] k v = (if k = ''__proto__'' then [] else [(k, v)])"
| "setProp ((k', v') # ps) k v =
     (if k' = k then (k', v) # ps else (k', v') # setProp ps k v)"

text \<open>
  Thrown values and rejection reasons. \<open>TypeError\<close> is what the engine throws on a
  property read of undefined; \<open>Error\<close> is a truthy value that a handler throws or
  rejects with; \<open>Falsy\<close> is a falsy one (undefined, null, false, 0, NaN or the empty
  string), which the tests \<open>if (error || ...)\<close> of dispatch do not see.
\<close>

datatype error = Error string | TypeError string | Falsy

datatype reason = Reason string | Redirect string params params

text \<open>
  A promise that a handler attaches or returns is given by its fate: it is fulfilled
  on a later turn, rejected with an error on a later turn, or it stays pending for ever.
  \<open>Aborting why q\<close> is a promise with the fate of \<open>q\<close> on which the handler has put
  a continuation that aborts the transition with the reason \<open>why\<close>; the continuation
  runs when the promise settles, before whatever the router chains on the promise.
\<close>

datatype promise = Fulfils | Rejects error | Pends | Aborting reason promise

text \<open>
  Modelled from the spec: the Transition object, whose class is required from
  \<open>./Transition\<close> and is not among the sources. It has the target path and the
  fields that Router.js reads and deletes: \<open>isAborted\<close>, \<open>abortReason\<close> and
  \<open>promise\<close> (None when the property is absent).
\<close>

record transition =
  transitionPath :: string
  isAborted :: bool
  abortReason :: "reason option"
  promise :: "promise option"

text \<open>
  Modelled from the spec: the constructor of Transition, whose file is not among the
  sources. A new transition is not aborted, has no abort reason and no promise.
\<close>

definition newTransition :: "string \<Rightarrow> transition" where
  "newTransition p =
     \<lparr>transitionPath = p, isAborted = False, abortReason = None, promise = None\<rparr>"

text \<open>
  Modelled from the spec: the two effects a hook has on the transition. \<open>abort\<close> sets
  \<open>isAborted\<close> and the reason; \<open>wait\<close> attaches a promise. They serve to write hooks
  down; the theorems below hold for every hook.
\<close>

definition abort :: "reason \<Rightarrow> transition \<Rightarrow> transition" where
  "abort why t = t\<lparr>isAborted := True, abortReason := Some why\<rparr>"

definition wait :: "promise \<Rightarrow> transition \<Rightarrow> transition" where
  "wait q t = t\<lparr>promise := Some q\<rparr>"

datatype 'a completion = Returns 'a | Throws error

text \<open>
  A route handler carries two optional hooks. A hook is an arbitrary function of the
  source language: it gets the transition object, which it may change in any way, and
  it returns a value or throws. The returned value is either falsy (None) or a promise.
  The rendered element of a match is opaque.
\<close>

type_synonym element = "nat option"

type_synonym hookresult = "promise option completion \<times> transition"

record handler =
  willTransitionFrom :: "(element \<Rightarrow> transition \<Rightarrow> hookresult) option"
  willTransitionTo :: "(params \<Rightarrow> params \<Rightarrow> transition \<Rightarrow> hookresult) option"

text \<open>
  A Route object. The source compares routes by reference (\<open>m.route !== match.route\<close>);
  \<open>oid\<close> is the identity of the object, and two routes are the same object exactly
  when their \<open>oid\<close> agree.
\<close>

datatype route = Route
  (oid: nat)
  (path: string)
  (paramNames: "string list")
  (childRoutes: "route list")
  (defaultRoute: "route option")
  (notFoundRoute: "route option")
  (handler: handler)

record match =
  route :: route
  params :: params
  element :: element

text \<open>
  Modelled from the spec: the constructor of Match (required from \<open>./Match\<close>, not
  among the sources) pairs a route with a parameter object; \<open>new Match(route, params)\<close>
  has no rendered element yet.
\<close>

definition newMatch :: "route \<Rightarrow> params \<Rightarrow> match" where
  "newMatch r ps = \<lparr>route = r, params = ps, element = None\<rparr>"

text \<open>
  The functions of \<open>./utils/Path\<close> that Router.js calls are not among the
  sources; they are parameters of the model. \<open>extractParams\<close> returns the
  parameter object or null.
\<close>

record pathlib =
  extractParams :: "string \<Rightarrow> string \<Rightarrow> params option"
  withoutQuery :: "string \<Rightarrow> string"
  extractQuery :: "string \<Rightarrow> params option"

section \<open>The matcher\<close>

text \<open>
  \<open>getRootMatch\<close> (lines 17-19) reads the last element of the array; on an empty
  array the read gives undefined, which is None here.
\<close>

definition getRootMatch :: "match list \<Rightarrow> match option" where
  "getRootMatch ms = (if ms = [] then None else Some (last ms))"

text \<open>
  Lines 33-36: the parameters of an ancestor route, one property for each of its
  declared names, each read from the parameters of the deepest match.
\<close>

definition reduceParamNames :: "route \<Rightarrow> params \<Rightarrow> params" where
  "reduceParamNames r rootParams =
     foldl (\<lambda>ps paramName. setProp ps paramName (getProp rootParams paramName)) [] (paramNames r)"

text \<open>
  Lines 51 and 55: \<open>r && (params = Path.extractParams(r.path, path))\<close>, returning the
  singleton chain on success.
\<close>

definition fallbackMatch :: "pathlib \<Rightarrow> string \<Rightarrow> route option \<Rightarrow> match list option" where
  "fallbackMatch P p r =
     (case r of
        None \<Rightarrow> None
      | Some x \<Rightarrow>
          (case extractParams P (path x) p of
             None \<Rightarrow> None
           | Some ps \<Rightarrow> Some [newMatch x ps]))"

text \<open>
  \<open>findMatches\<close> (lines 21-59). The for loop over \<open>routes\<close> is the recursion on the
  list; its body returns from the function on the first success. When the loop ends
  the variable \<open>matches\<close> holds the null of the last subtree search, so the final
  \<open>return matches\<close> returns null. A chain returned by the recursive call is never
  empty (lemma \<open>findMatches_not_empty\<close>), so \<open>getRootMatch\<close> finds a match there; the
  model reads the empty object in the branch that cannot occur.
\<close>

fun findMatches ::
  "pathlib \<Rightarrow> string \<Rightarrow> route list \<Rightarrow> route option \<Rightarrow> route option \<Rightarrow> match list option" where
  "findMatches P p [] dflt nf =
     (case fallbackMatch P p dflt of
        Some ms \<Rightarrow> Some ms
      | None \<Rightarrow>
          (case fallbackMatch P p nf of
             Some ms \<Rightarrow> Some ms
           | None \<Rightarrow> None))"
| "findMatches P p (Route i pa ns cs d n h # rest) dflt nf =
     (case findMatches P p cs d n of
        Some ms \<Rightarrow>
          (let rootParams = (case getRootMatch ms of Some m \<Rightarrow> params m | None \<Rightarrow> [])
           in Some (newMatch (Route i pa ns cs d n h)
                      (reduceParamNames (Route i pa ns cs d n h) rootParams) # ms))
      | None \<Rightarrow>
          (case extractParams P pa p of
             Some ps \<Rightarrow> Some [newMatch (Route i pa ns cs d n h) ps]
           | None \<Rightarrow> findMatches P p rest dflt nf))"


section \<open>The router and its state\<close>

text \<open>
  The state object of a router. The constructor stores the empty object (line 176);
  dispatch builds the five fields of lines 291-297. The slot \<open>state\<close> and the slot
  \<open>_nextState\<close> (here \<open>nextState\<close>) may hold undefined, which is None.
\<close>

datatype state =
  Empty
| Resolved
    (matches: "match list")
    (statePath: string)
    (stateRoutes: "route list")
    (stateParams: params)
    (stateQuery: params)

record router =
  routes :: "route list"
  routerDefaultRoute :: "route option"
  routerNotFoundRoute :: "route option"
  state :: "state option"
  nextState :: "state option"

text \<open>\<open>match\<close> (lines 228-230).\<close>

definition match :: "pathlib \<Rightarrow> router \<Rightarrow> string \<Rightarrow> match list option" where
  "match P r p =
     findMatches P (withoutQuery P p) (routes r) (routerDefaultRoute r) (routerNotFoundRoute r)"

text \<open>\<open>flipSwitch\<close> (lines 304-307).\<close>

definition flipSwitch :: "router \<Rightarrow> router" where
  "flipSwitch r = r\<lparr>state := nextState r, nextState := None\<rparr>"

section \<open>The diff of two chains\<close>

text \<open>
  \<open>hasMatch\<close> (lines 61-72): \<open>some\<close> over the array; inside, the test of the route
  references, then the for-in loop over the properties of \<open>m.params\<close>.
\<close>

definition hasMatch :: "match list \<Rightarrow> match \<Rightarrow> bool" where
  "hasMatch ms x =
     list_ex
       (\<lambda>m. if oid (route m) \<noteq> oid (route x) then False
            else list_all
                   (\<lambda>property. getProp (params m) property = getProp (params x) property)
                   (ownKeys (params m)))
       ms"

text \<open>Lines 259-271 of dispatch: the pair (fromMatches, toMatches).\<close>

definition diffMatches :: "match list \<Rightarrow> match list \<Rightarrow> match list \<times> match list" where
  "diffMatches currentMatches nextMatches =
     (if currentMatches \<noteq> [] then
        (filter (\<lambda>m. \<not> hasMatch nextMatches m) currentMatches,
         filter (\<lambda>m. \<not> hasMatch currentMatches m) nextMatches)
      else ([], nextMatches))"

section \<open>Hooks and scheduling turns\<close>

text \<open>
  One dispatch is observed through a log. \<open>turn\<close> counts the scheduled callbacks
  (promise reactions and timers) of the dispatch that have started: everything that
  runs inside the call of dispatch itself runs at turn 0, and a callback that the
  scheduler starts later runs at a greater turn. The log records each call of a
  handler's hook (phase, route, turn, the transition before and after the call, and how
  the call completed), each abort made by the continuation of an awaited promise (turn,
  the transition before and after) and the call of the dispatch callback (its two
  arguments and the turn).
\<close>

datatype phase = Leaving | Entering

datatype event =
  Invoked phase nat nat transition transition "promise option completion"
| Settled nat transition transition
| Called "error option" "reason option" nat

record world =
  router :: router
  trans :: transition
  turn :: nat
  events :: "event list"

type_synonym hook = "world \<Rightarrow> promise option completion \<times> world"

text \<open>
  Lines 88-91 and 111-114: read the promise of the transition, delete the property,
  return what was read.
\<close>

definition takePromise :: hook where
  "takePromise w = (Returns (promise (trans w)), w\<lparr>trans := (trans w)\<lparr>promise := None\<rparr>\<rparr>)"

text \<open>
  The closure that \<open>runTransitionFromHooks\<close> builds for a match (lines 82-92). When
  the handler's hook is called, the closure returns what the hook returns (line 86)
  and does not reach lines 88-91.
\<close>

definition leaveHook :: "match \<Rightarrow> hook" where
  "leaveHook m w =
     (case (if isAborted (trans w) then None else willTransitionFrom (handler (route m))) of
        Some f \<Rightarrow>
          (case f (element m) (trans w) of
             (c, t) \<Rightarrow>
               (c, w\<lparr>trans := t,
                      events := events w @
                        [Invoked Leaving (oid (route m)) (turn w) (trans w) t c]\<rparr>))
      | None \<Rightarrow> takePromise w)"

text \<open>
  The closure that \<open>runTransitionToHooks\<close> builds for a match (lines 105-115). The
  value the handler's hook returns is dropped; after the call the closure goes on to
  lines 111-114. A hook that throws leaves the closure at once.
\<close>

definition enterHook :: "params \<Rightarrow> match \<Rightarrow> hook" where
  "enterHook query m w =
     (case (if isAborted (trans w) then None else willTransitionTo (handler (route m))) of
        Some f \<Rightarrow>
          (case f (params m) query (trans w) of
             (c, t) \<Rightarrow>
               (let w1 = w\<lparr>trans := t,
                           events := events w @
                             [Invoked Entering (oid (route m)) (turn w) (trans w) t c]\<rparr>
                in case c of
                     Throws e \<Rightarrow> (Throws e, w1)
                   | Returns v \<Rightarrow> takePromise w1))
      | None \<Rightarrow> takePromise w)"

text \<open>
  The promise that the reduce of \<open>runHooks\<close> builds: the promise some hook returned,
  followed by the hooks registered on it with \<open>then\<close>.
\<close>

datatype chain = Attached promise | Then chain hook

text \<open>
  Lines 127-131: \<open>hooks.reduce(function (promise, hook) { return promise ?
  promise.then(hook) : hook(); }, null)\<close>. While the accumulator is null each hook is
  called at once; a hook that throws ends the reduce (the catch of line 132). From the
  first hook that returns a promise on, the remaining hooks are only registered.
\<close>

fun reduceHooks :: "hook list \<Rightarrow> chain option \<Rightarrow> world \<Rightarrow> chain option completion \<times> world" where
  "reduceHooks [] acc w = (Returns acc, w)"
| "reduceHooks (h # hs) None w =
     (case h w of
        (Throws e, w1) \<Rightarrow> (Throws e, w1)
      | (Returns v, w1) \<Rightarrow> reduceHooks hs (map_option Attached v) w1)"
| "reduceHooks (h # hs) (Some c) w = reduceHooks hs (Some (Then c h)) w"

datatype settled = Fulfilled | Rejected error | Pending

fun adopt :: "promise \<Rightarrow> settled" where
  "adopt Fulfils = Fulfilled"
| "adopt (Rejects e) = Rejected e"
| "adopt Pends = Pending"
| "adopt (Aborting why q) = adopt q"

definition tick :: "world \<Rightarrow> world" where
  "tick w = w\<lparr>turn := Suc (turn w)\<rparr>"

text \<open>
  The aborts that the continuations on a promise make when it settles, in the order in
  which they were put on it (the innermost first); none when it never settles.
\<close>

fun vetoes :: "promise \<Rightarrow> reason list" where
  "vetoes Fulfils = []"
| "vetoes (Rejects e) = []"
| "vetoes Pends = []"
| "vetoes (Aborting why q) = (if adopt q = Pending then [] else vetoes q @ [why])"

definition settleAbort :: "reason \<Rightarrow> world \<Rightarrow> world" where
  "settleAbort why w =
     w\<lparr>trans := abort why (trans w),
       events := events w @ [Settled (Suc (turn w)) (trans w) (abort why (trans w))]\<rparr>"

text \<open>
  The router awaits a promise: when it settles, on a later turn, its continuations have
  run. A promise that no closure hands to \<open>runHooks\<close> is not awaited; what its
  continuations do lies outside the dispatch as it is observed here.
\<close>

definition await :: "promise \<Rightarrow> world \<Rightarrow> settled \<times> world" where
  "await q w = (adopt q, foldl (\<lambda>w1 why. settleAbort why w1) w (vetoes q))"

text \<open>
  How a chain settles. A hook registered with \<open>then\<close> runs on a later turn, once the
  promise before it is fulfilled; the promise it returns (if any) is adopted, a throw
  rejects the chain. A rejection passes over the hooks registered after it, none of
  which has a rejection handler; a promise that stays pending holds the chain for ever.
\<close>

fun settle :: "chain \<Rightarrow> world \<Rightarrow> settled \<times> world" where
  "settle (Attached q) w = await q w"
| "settle (Then c h) w =
     (case settle c w of
        (Fulfilled, w1) \<Rightarrow>
          (case h (tick w1) of
             (Throws e, w2) \<Rightarrow> (Rejected e, w2)
           | (Returns None, w2) \<Rightarrow> (Fulfilled, w2)
           | (Returns (Some q), w2) \<Rightarrow> await q w2)
      | (Rejected e, w1) \<Rightarrow> (Rejected e, w1)
      | (Pending, w1) \<Rightarrow> (Pending, w1))"

text \<open>
  \<open>runHooks\<close> (lines 125-148). The callback is a continuation on the world. With a
  promise, the reaction of line 138 (or 140) runs on a later turn and starts a timer,
  whose callback runs on a turn after that; with no promise the callback is called at
  once (line 146).
\<close>

definition runHooks :: "hook list \<Rightarrow> (error option \<Rightarrow> world \<Rightarrow> world) \<Rightarrow> world \<Rightarrow> world" where
  "runHooks hooks callback w =
     (case reduceHooks hooks None w of
        (Throws e, w1) \<Rightarrow> callback (Some e) w1
      | (Returns (Some c), w1) \<Rightarrow>
          (case settle c w1 of
             (Fulfilled, w2) \<Rightarrow> callback None (tick (tick w2))
           | (Rejected e, w2) \<Rightarrow> callback (Some e) (tick (tick w2))
           | (Pending, w2) \<Rightarrow> w2)
      | (Returns None, w1) \<Rightarrow> callback None w1)"

text \<open>Lines 80-96 and 103-119.\<close>

definition runTransitionFromHooks ::
  "match list \<Rightarrow> (error option \<Rightarrow> world \<Rightarrow> world) \<Rightarrow> world \<Rightarrow> world" where
  "runTransitionFromHooks ms callback w = runHooks (map leaveHook (rev ms)) callback w"

definition runTransitionToHooks ::
  "match list \<Rightarrow> params \<Rightarrow> (error option \<Rightarrow> world \<Rightarrow> world) \<Rightarrow> world \<Rightarrow> world" where
  "runTransitionToHooks ms query callback w = runHooks (map (enterHook query) ms) callback w"

section \<open>Dispatch\<close>

text \<open>
  The test \<open>error\<close> of \<open>if (error || transition.isAborted)\<close> (lines 277 and 281):
  a truthy error was handed over.
\<close>

definition truthy :: "error option \<Rightarrow> bool" where
  "truthy e =
     (case e of
        None \<Rightarrow> False
      | Some Falsy \<Rightarrow> False
      | Some (Error x) \<Rightarrow> True
      | Some (TypeError x) \<Rightarrow> True)"

text \<open>
  The dispatch callback is the caller's; its call is recorded in the log with its two
  arguments \<open>(error, transition.abortReason)\<close> (lines 278 and 282).
\<close>

definition callback :: "error option \<Rightarrow> world \<Rightarrow> world" where
  "callback err w = w\<lparr>events := events w @ [Called err (abortReason (trans w)) (turn w)]\<rparr>"

text \<open>Lines 284-299: the pending state is stored and the callback is called with no argument.\<close>

definition storeNextState ::
  "match list \<Rightarrow> match list \<Rightarrow> match list \<Rightarrow> string \<Rightarrow> params \<Rightarrow> world \<Rightarrow> world" where
  "storeNextState currentMatches fromMatches toMatches p query w =
     (let ms = take (length currentMatches - length fromMatches) currentMatches @ toMatches;
          rootMatch = getRootMatch ms;
          ps = (case rootMatch of Some m \<Rightarrow> params m | None \<Rightarrow> []);
          rs = map route ms;
          w1 = w\<lparr>router := (router w)\<lparr>nextState := Some (Resolved ms p rs ps query)\<rparr>\<rparr>
      in w1\<lparr>events := events w1 @ [Called None None (turn w1)]\<rparr>)"

text \<open>
  The three values dispatch computes before the diff: \<open>this.state.matches || []\<close>
  (line 250), \<open>this.match(path) || []\<close> (line 251) and
  \<open>Path.extractQuery(path) || {}\<close> (line 274).
\<close>

definition currentChain :: "state \<Rightarrow> match list" where
  "currentChain s = (case s of Empty \<Rightarrow> [] | Resolved ms _ _ _ _ \<Rightarrow> ms)"

definition nextChain :: "pathlib \<Rightarrow> router \<Rightarrow> string \<Rightarrow> match list" where
  "nextChain P r p = (case match P r p of None \<Rightarrow> [] | Some ms \<Rightarrow> ms)"

definition parsedQuery :: "pathlib \<Rightarrow> string \<Rightarrow> params" where
  "parsedQuery P p = (case extractQuery P p of None \<Rightarrow> [] | Some q \<Rightarrow> q)"

text \<open>
  \<open>dispatch\<close> (lines 248-302). Reading \<open>this.state.matches\<close> throws when the state
  slot holds undefined. The warning of lines 253-257 only prints.
\<close>

definition dispatch :: "pathlib \<Rightarrow> router \<Rightarrow> string \<Rightarrow> error + world" where
  "dispatch P r p =
     (case state r of
        None \<Rightarrow> Inl (TypeError ''Cannot read property matches of undefined'')
      | Some s \<Rightarrow>
          (let currentMatches = currentChain s;
               nextMatches = nextChain P r p;
               (fromMatches, toMatches) = diffMatches currentMatches nextMatches;
               query = parsedQuery P p
           in Inr
                (runTransitionFromHooks fromMatches
                   (\<lambda>error w.
                      if truthy error \<or> isAborted (trans w) then callback error w
                      else runTransitionToHooks toMatches query
                             (\<lambda>error w.
                                if truthy error \<or> isAborted (trans w) then callback error w
                                else storeNextState currentMatches fromMatches toMatches p query w)
                             w)
                   \<lparr>router = r, trans = newTransition p, turn = 0, events = []\<rparr>)))"

section \<open>Reading the log\<close>

text \<open>An event that leaves the transition aborted: a hook call or a continuation.\<close>

fun aborting :: "event \<Rightarrow> bool" where
  "aborting (Invoked ph i tn before after c) = isAborted after"
| "aborting (Settled tn before after) = isAborted after"
| "aborting (Called err why tn) = False"

fun isCalled :: "event \<Rightarrow> bool" where
  "isCalled (Invoked ph i tn before after c) = False"
| "isCalled (Settled tn before after) = False"
| "isCalled (Called err why tn) = True"

fun isSettled :: "event \<Rightarrow> bool" where
  "isSettled (Invoked ph i tn before after c) = False"
| "isSettled (Settled tn before after) = True"
| "isSettled (Called err why tn) = False"

fun eventTurn :: "event \<Rightarrow> nat" where
  "eventTurn (Invoked ph i tn before after c) = tn"
| "eventTurn (Settled tn before after) = tn"
| "eventTurn (Called err why tn) = tn"

text \<open>
  The abort reason an event leaves on the transition; for the call of the dispatch
  callback, the reason it is given.
\<close>

fun reasonLeft :: "event \<Rightarrow> reason option" where
  "reasonLeft (Invoked ph i tn before after c) = abortReason after"
| "reasonLeft (Settled tn before after) = abortReason after"
| "reasonLeft (Called err why tn) = why"

text \<open>
  A hook call attaches a wait when it leaves a promise on the transition, or, for a
  leaving hook, when it returns one (line 86 returns it to the reduce).
\<close>

fun waits :: "event \<Rightarrow> bool" where
  "waits (Invoked Leaving i tn before after c) =
     (case promise after of
        Some q \<Rightarrow> True
      | None \<Rightarrow> (case c of Returns (Some q) \<Rightarrow> True | Returns None \<Rightarrow> False | Throws e \<Rightarrow> False))"
| "waits (Invoked Entering i tn before after c) =
     (case promise after of Some q \<Rightarrow> True | None \<Rightarrow> False)"
| "waits (Settled tn before after) = False"
| "waits (Called err why tn) = False"

fun throws :: "event \<Rightarrow> bool" where
  "throws (Invoked ph i tn before after c) = (case c of Throws e \<Rightarrow> True | Returns v \<Rightarrow> False)"
| "throws (Settled tn before after) = False"
| "throws (Called err why tn) = False"

text \<open>A hook call that attaches a promise which never settles.\<close>

definition pends :: "promise option \<Rightarrow> bool" where
  "pends v = (case v of None \<Rightarrow> False | Some q \<Rightarrow> adopt q = Pending)"

fun stalls :: "event \<Rightarrow> bool" where
  "stalls (Invoked ph i tn before after c) =
     (pends (promise after) \<or> (case c of Returns v \<Rightarrow> pends v | Throws e \<Rightarrow> False))"
| "stalls (Settled tn before after) = False"
| "stalls (Called err why tn) = False"

text \<open>
  The hook calls of a log, each as its phase and the identity of its route, and the
  calls a dispatch plans for a diff: the leaving matches from the deepest to the
  outermost, then the entering matches from the outermost to the deepest.
\<close>

fun hookCall :: "event \<Rightarrow> (phase \<times> nat) list" where
  "hookCall (Invoked ph i tn before after c) = [(ph, i)]"
| "hookCall (Settled tn before after) = []"
| "hookCall (Called err why tn) = []"

definition hookCalls :: "event list \<Rightarrow> (phase \<times> nat) list" where
  "hookCalls l = concat (map hookCall l)"

definition hookPlan :: "match list \<Rightarrow> match list \<Rightarrow> (phase \<times> nat) list" where
  "hookPlan leaving entering =
     map (\<lambda>m. (Leaving, oid (route m))) (rev leaving) @
     map (\<lambda>m. (Entering, oid (route m))) entering"

section \<open>The hooks of one phase, one after the other\<close>

text \<open>
  The reduce of \<open>runHooks\<close> and the settling of the chain it builds, read as one pass
  over the hooks. The pass is in one of three modes: no hook has returned a promise
  yet (\<open>Sync\<close>), a hook has thrown inside the reduce (\<open>Thrown\<close>), or the hooks are
  chained on a promise that settles as given (\<open>Async\<close>). Lemma \<open>runHooks_serial\<close>
  shows that \<open>runHooks\<close> computes exactly this pass.
\<close>

datatype mode = Sync | Thrown error | Async settled

definition proceed :: "mode \<Rightarrow> promise option completion \<Rightarrow> world \<Rightarrow> mode \<times> world" where
  "proceed m c w =
     (case c of
        Throws e \<Rightarrow> ((case m of Sync \<Rightarrow> Thrown e | _ \<Rightarrow> Async (Rejected e)), w)
      | Returns None \<Rightarrow> (m, w)
      | Returns (Some q) \<Rightarrow> (case await q w of (s, w1) \<Rightarrow> (Async s, w1)))"

fun stepHook :: "hook \<Rightarrow> mode \<Rightarrow> world \<Rightarrow> mode \<times> world" where
  "stepHook h Sync w = (case h w of (c, w1) \<Rightarrow> proceed Sync c w1)"
| "stepHook h (Thrown e) w = (Thrown e, w)"
| "stepHook h (Async Fulfilled) w =
     (case h (tick w) of (c, w1) \<Rightarrow> proceed (Async Fulfilled) c w1)"
| "stepHook h (Async (Rejected e)) w = (Async (Rejected e), w)"
| "stepHook h (Async Pending) w = (Async Pending, w)"

fun runSerial :: "hook list \<Rightarrow> mode \<Rightarrow> world \<Rightarrow> mode \<times> world" where
  "runSerial [] m w = (m, w)"
| "runSerial (h # hs) m w = (case stepHook h m w of (m1, w1) \<Rightarrow> runSerial hs m1 w1)"

definition finish :: "(error option \<Rightarrow> world \<Rightarrow> world) \<Rightarrow> mode \<times> world \<Rightarrow> world" where
  "finish k mw =
     (case mw of
        (Sync, w) \<Rightarrow> k None w
      | (Thrown e, w) \<Rightarrow> k (Some e) w
      | (Async Fulfilled, w) \<Rightarrow> k None (tick (tick w))
      | (Async (Rejected e), w) \<Rightarrow> k (Some e) (tick (tick w))
      | (Async Pending, w) \<Rightarrow> w)"

text \<open>The error a finished pass hands to the callback, and the world the callback runs in.\<close>

definition errorOf :: "mode \<Rightarrow> error option" where
  "errorOf m =
     (case m of
        Sync \<Rightarrow> None
      | Thrown e \<Rightarrow> Some e
      | Async Fulfilled \<Rightarrow> None
      | Async (Rejected e) \<Rightarrow> Some e
      | Async Pending \<Rightarrow> None)"

definition resume :: "mode \<Rightarrow> world \<Rightarrow> world" where
  "resume m w = (case m of Async s \<Rightarrow> tick (tick w) | _ \<Rightarrow> w)"

section \<open>Invariants of a phase\<close>

text \<open>
  What a hook closure of either phase does to the world: it only takes the promise,
  or it calls the handler's hook on a transition that is not aborted and logs the call.
\<close>

definition hookShape :: "hook \<Rightarrow> bool" where
  "hookShape h =
     (\<forall>w c w'. h w = (c, w') \<longrightarrow>
        (c = Returns (promise (trans w)) \<and> w' = w\<lparr>trans := (trans w)\<lparr>promise := None\<rparr>\<rparr>) \<or>
        (\<not> isAborted (trans w) \<and>
         (\<exists>i t. w' = w\<lparr>trans := t,
                      events := events w @ [Invoked Leaving i (turn w) (trans w) t c]\<rparr>)) \<or>
        (\<not> isAborted (trans w) \<and>
         (\<exists>i t e. c = Throws e \<and>
                 w' = w\<lparr>trans := t,
                      events := events w @ [Invoked Entering i (turn w) (trans w) t c]\<rparr>)) \<or>
        (\<not> isAborted (trans w) \<and>
         (\<exists>i t v. c = Returns (promise t) \<and>
                 w' = w\<lparr>trans := t\<lparr>promise := None\<rparr>,
                      events := events w @ [Invoked Entering i (turn w) (trans w) t (Returns v)]\<rparr>)))"

text \<open>The hooks leave the router alone and never call the dispatch callback.\<close>

definition baseInv :: "router \<Rightarrow> mode \<Rightarrow> world \<Rightarrow> bool" where
  "baseInv r0 m w = (router w = r0 \<and> \<not> list_ex isCalled (events w))"

text \<open>
  Either no logged event has aborted and the transition is not aborted, or the first
  aborting event is followed by continuations only and the transition carries the
  abort reason that the last event left.
\<close>

definition abortInv :: "mode \<Rightarrow> world \<Rightarrow> bool" where
  "abortInv m w =
     ((\<not> list_ex aborting (events w) \<and> \<not> isAborted (trans w)) \<or>
      (\<exists>l e zs.
         events w = l @ e # zs \<and> aborting e \<and> \<not> list_ex aborting l \<and>
         list_all isSettled zs \<and>
         isAborted (trans w) \<and> abortReason (trans w) = reasonLeft (last (e # zs))))"

text \<open>A pass can only hang on a promise that a logged hook call attached.\<close>

definition stallInv :: "mode \<Rightarrow> world \<Rightarrow> bool" where
  "stallInv m w =
     (list_ex stalls (events w) \<or> (\<not> pends (promise (trans w)) \<and> m \<noteq> Async Pending))"

text \<open>As long as no logged hook call waits or throws, the pass is still at turn 0.\<close>

definition quietInv :: "mode \<Rightarrow> world \<Rightarrow> bool" where
  "quietInv m w =
     (list_ex waits (events w) \<or> list_ex throws (events w) \<or>
      (m = Sync \<and> turn w = 0 \<and> promise (trans w) = None \<and>
       list_all (\<lambda>e. eventTurn e = 0) (events w)))"

definition phaseInv :: "router \<Rightarrow> mode \<Rightarrow> world \<Rightarrow> bool" where
  "phaseInv r0 m w = (baseInv r0 m w \<and> abortInv m w \<and> stallInv m w \<and> quietInv m w)"

section \<open>Equality of matches in the words of the specification\<close>

text \<open>
  Two parameter objects are identical when they have the same property names and the
  same value under each name; two matches are equal when they reference the same
  route object and their parameter objects are identical.
\<close>

definition sameParams :: "params \<Rightarrow> params \<Rightarrow> bool" where
  "sameParams a b =
     (list_all (\<lambda>k. k \<in> set (ownKeys b) \<and> getProp a k = getProp b k) (ownKeys a) \<and>
      list_all (\<lambda>k. k \<in> set (ownKeys a)) (ownKeys b))"

definition equalMatch :: "match \<Rightarrow> match \<Rightarrow> bool" where
  "equalMatch a b = (oid (route a) = oid (route b) \<and> sameParams (params a) (params b))"

text \<open>Matches of the same route carry the same property names.\<close>

definition sameKeysPerRoute :: "match list \<Rightarrow> bool" where
  "sameKeysPerRoute ms =
     list_all (\<lambda>a. list_all (\<lambda>b. if oid (route a) = oid (route b)
                                  then set (ownKeys (params a)) = set (ownKeys (params b))
                                  else True) ms) ms"


section \<open>Example routers\<close>

text \<open>
  The tree of the documentation comment of \<open>match\<close> (lines 220-226): an application
  route with the children posts and post. The pattern \<open>/posts/:id\<close> matches a path
  that continues \<open>/posts/\<close>; every other pattern matches the path equal to it.
\<close>

definition examplePath :: pathlib where
  "examplePath =
     \<lparr>extractParams =
        (\<lambda>pattern p.
           if pattern = ''/posts/:id'' then
             (if take 7 p = ''/posts/'' \<and> 7 < length p
              then Some [(''id'', Str (drop 7 p))] else None)
           else if pattern = p then Some [] else None),
      withoutQuery = takeWhile (\<lambda>c. c \<noteq> CHR ''?''),
      extractQuery = (\<lambda>p. None)\<rparr>"

definition noHooks :: handler where
  "noHooks = \<lparr>willTransitionFrom = None, willTransitionTo = None\<rparr>"

definition postsRoute :: route where
  "postsRoute = Route 1 ''/posts'' [] [] None None noHooks"

definition postRoute :: route where
  "postRoute = Route 2 ''/posts/:id'' [''id''] [] None None noHooks"

definition appRoute :: route where
  "appRoute = Route 0 ''/'' [] [postsRoute, postRoute] None None noHooks"

definition exampleRouter :: router where
  "exampleRouter =
     \<lparr>routes = [appRoute], routerDefaultRoute = None, routerNotFoundRoute = None,
      state = Some Empty, nextState = None\<rparr>"

text \<open>
  A router whose handlers have hooks: a mail route with an inbox child whose hooks
  wait on a promise that is fulfilled later, an about route with quiet hooks, and a
  locked route whose leaving hook aborts with a redirect.
\<close>

definition quietHandler :: handler where
  "quietHandler =
     \<lparr>willTransitionFrom = Some (\<lambda>el t. (Returns None, t)),
      willTransitionTo = Some (\<lambda>ps q t. (Returns None, t))\<rparr>"

definition waitingHandler :: handler where
  "waitingHandler =
     \<lparr>willTransitionFrom = Some (\<lambda>el t. (Returns None, wait Fulfils t)),
      willTransitionTo = Some (\<lambda>ps q t. (Returns None, wait Fulfils t))\<rparr>"

definition vetoHandler :: handler where
  "vetoHandler =
     \<lparr>willTransitionFrom = Some (\<lambda>el t. (Returns None, abort (Redirect ''posts'' [] []) t)),
      willTransitionTo = None\<rparr>"

definition inboxRoute :: route where
  "inboxRoute = Route 11 ''/mail/inbox'' [] [] None None waitingHandler"

definition mailRoute :: route where
  "mailRoute = Route 10 ''/mail'' [] [inboxRoute] None None quietHandler"

definition aboutRoute :: route where
  "aboutRoute = Route 12 ''/about'' [] [] None None quietHandler"

definition lockedRoute :: route where
  "lockedRoute = Route 13 ''/locked'' [] [] None None vetoHandler"

definition hookRouter :: "match list \<Rightarrow> router" where
  "hookRouter current =
     \<lparr>routes = [mailRoute, aboutRoute, lockedRoute],
      routerDefaultRoute = None, routerNotFoundRoute = None,
      state = Some (Resolved current [] (map route current) [] []), nextState = None\<rparr>"

text \<open>
  A tree of three nested routes whose patterns are absolute: a users route with the
  parameter \<open>a\<close>, below it a things route with the parameter \<open>b\<close>, below it an item
  route with both. \<open>visitedRouter\<close> is the router after a first dispatch to
  \<open>/users/1/things/2\<close> and the commit of its pending state.
\<close>

definition nestedPath :: pathlib where
  "nestedPath =
     \<lparr>extractParams =
        (\<lambda>pattern p.
           if pattern = ''/users/:a/things/:b'' then
             (if p = ''/users/1/things/2'' then Some [(''a'', Str ''1''), (''b'', Str ''2'')]
              else if p = ''/users/3/things/2'' then Some [(''a'', Str ''3''), (''b'', Str ''2'')]
              else None)
           else None),
      withoutQuery = (\<lambda>p. p),
      extractQuery = (\<lambda>p. None)\<rparr>"

definition itemRoute :: route where
  "itemRoute = Route 22 ''/users/:a/things/:b'' [''a'', ''b''] [] None None noHooks"

definition thingsRoute :: route where
  "thingsRoute = Route 21 ''/things/:b'' [''b''] [itemRoute] None None noHooks"

definition usersRoute :: route where
  "usersRoute = Route 20 ''/users/:a'' [''a''] [thingsRoute] None None noHooks"

definition nestedRouter :: router where
  "nestedRouter =
     \<lparr>routes = [usersRoute], routerDefaultRoute = None, routerNotFoundRoute = None,
      state = Some Empty, nextState = None\<rparr>"

definition visitedRouter :: router where
  "visitedRouter =
     flipSwitch (router (projr (dispatch nestedPath nestedRouter ''/users/1/things/2'')))"

text \<open>
  \<open>postRouter\<close> is the example router after a first dispatch to \<open>/posts/123\<close> and the
  commit of its pending state.
\<close>

definition postRouter :: router where
  "postRouter = flipSwitch (router (projr (dispatch examplePath exampleRouter ''/posts/123'')))"






section \<open>Properties of the matcher\<close>

lemma findMatches_not_empty: "findMatches P p rs dflt nf \<noteq> Some []"
  by (induction P p rs dflt nf rule: findMatches.induct)
     (auto simp: fallbackMatch_def Let_def split: option.splits)

lemma getRootMatch_last: "ms \<noteq> [] \<Longrightarrow> getRootMatch ms = Some (last ms)"
  by (simp add: getRootMatch_def)

text \<open>
  C1. The matcher is a depth-first, left-to-right search. The winner is the first route
  of the list, in declaration order, whose subtree search succeeds or whose own pattern
  matches the path; routes after it do not influence the result. For the winner the
  chain of its subtree (searched with the route's own default and not-found routes)
  is taken before the route's own pattern, and the route is put in front of that chain
  with its declared parameter names read from the deepest match. Only when no route of
  the list wins is the default route of the level tried, only when that fails the
  not-found route, and the result is null when these fail as well.
\<close>

theorem findMatches_search_order:
  "findMatches P p rs dflt nf =
     (let subtree = (\<lambda>r. findMatches P p (childRoutes r) (defaultRoute r) (notFoundRoute r));
          own = (\<lambda>r. extractParams P (path r) p);
          lastResort =
            (case nf of
               None \<Rightarrow> None
             | Some n \<Rightarrow> (case own n of None \<Rightarrow> None | Some ps \<Rightarrow> Some [newMatch n ps]))
      in case find (\<lambda>r. subtree r \<noteq> None \<or> own r \<noteq> None) rs of
           Some r \<Rightarrow>
             (case subtree r of
                Some ms \<Rightarrow> Some (newMatch r (reduceParamNames r (params (last ms))) # ms)
              | None \<Rightarrow> (case own r of None \<Rightarrow> None | Some ps \<Rightarrow> Some [newMatch r ps]))
         | None \<Rightarrow>
             (case dflt of
                None \<Rightarrow> lastResort
              | Some d \<Rightarrow> (case own d of None \<Rightarrow> lastResort | Some ps \<Rightarrow> Some [newMatch d ps])))"
proof (induction rs)
  case Nil
  show ?case
    by (simp add: fallbackMatch_def split: option.splits)
next
  case (Cons r rest)
  obtain i pa ns cs d n h where r: "r = Route i pa ns cs d n h"
    by (cases r)
  show ?case
  proof (cases "findMatches P p cs d n")
    case (Some ms)
    then have "ms \<noteq> []"
      using findMatches_not_empty [of P p cs d n] by auto
    then show ?thesis
      using Some by (simp add: r getRootMatch_last)
  next
    case None
    then show ?thesis
      using Cons.IH by (simp add: r Let_def split: option.splits)
  qed
qed

text \<open>
  The path \<open>/posts/123\<close> in the example tree: the application route has no matching
  pattern of its own, its subtree matches in the second child, and the chain is the
  application route followed by the post route.
\<close>

theorem findMatches_search_order_witness:
  "map_option (map (\<lambda>m. (oid (route m), params m)))
     (findMatches examplePath ''/posts/123'' [appRoute] None None) =
   Some [(0, []), (2, [(''id'', Str ''123'')])]"
  using findMatches_search_order [of examplePath "''/posts/123''" "[appRoute]" None None]
  by (simp add: examplePath_def appRoute_def postsRoute_def postRoute_def fallbackMatch_def
      newMatch_def getRootMatch_def reduceParamNames_def getProp_def)

section \<open>The commit\<close>

text \<open>
  C10. \<open>flipSwitch\<close> assigns the pending slot to the state slot and deletes the
  pending slot, whatever they hold; the routes are untouched. In particular, when no
  pending state exists the committed state becomes undefined, and so it does after two
  commits in a row.
\<close>

theorem flipSwitch_unconditional:
  "state (flipSwitch r) = nextState r \<and>
   nextState (flipSwitch r) = None \<and>
   routes (flipSwitch r) = routes r \<and>
   (nextState r = None \<longrightarrow> state (flipSwitch r) = None) \<and>
   state (flipSwitch (flipSwitch r)) = None"
  by (simp add: flipSwitch_def)

text \<open>
  The example router has no pending state; after the commit its state is undefined,
  and the next dispatch throws on reading \<open>this.state.matches\<close>.
\<close>

theorem flipSwitch_unconditional_witness:
  "nextState exampleRouter = None \<and>
   state exampleRouter = Some Empty \<and>
   state (flipSwitch exampleRouter) = None \<and>
   dispatch examplePath (flipSwitch exampleRouter) ''/posts/123'' =
     Inl (TypeError ''Cannot read property matches of undefined'')"
proof -
  have n: "nextState exampleRouter = None"
    by (simp add: exampleRouter_def)
  have "state (flipSwitch exampleRouter) = None"
    using n flipSwitch_unconditional [of exampleRouter] by simp
  then show ?thesis
    using n by (simp add: exampleRouter_def dispatch_def)
qed

section \<open>Properties of the diff\<close>

lemma hasMatch_iff:
  "hasMatch ms x \<longleftrightarrow>
     (\<exists>m\<in>set ms. oid (route m) = oid (route x) \<and>
        (\<forall>k\<in>set (ownKeys (params m)). getProp (params m) k = getProp (params x) k))"
  by (auto simp: hasMatch_def list_ex_iff list_all_iff)

lemma sameParams_iff:
  "sameParams a b \<longleftrightarrow>
     set (ownKeys a) = set (ownKeys b) \<and> (\<forall>k\<in>set (ownKeys a). getProp a k = getProp b k)"
  by (auto simp: sameParams_def list_all_iff)

lemma equalMatch_sym: "equalMatch a b \<Longrightarrow> equalMatch b a"
  by (auto simp: equalMatch_def sameParams_iff)

lemma hasMatch_equalMatch:
  assumes "\<forall>m\<in>set ms. oid (route m) = oid (route x) \<longrightarrow>
             set (ownKeys (params m)) = set (ownKeys (params x))"
  shows "hasMatch ms x \<longleftrightarrow> (\<exists>m\<in>set ms. equalMatch m x)"
  using assms by (auto simp: hasMatch_iff equalMatch_def sameParams_iff)







text \<open>
  A property that the tested match lacks is read through the prototype chain: the
  parameter \<open>toString\<close> with the value undefined finds no counterpart in a match without
  parameters, whose \<open>toString\<close> is the inherited function, while a parameter \<open>tab\<close>
  with the value undefined does.
\<close>

lemma hasMatch_inherited_name:
  "\<not> hasMatch [newMatch postRoute [(''toString'', Undefined)]] (newMatch postRoute []) \<and>
   hasMatch [newMatch postRoute [(''tab'', Undefined)]] (newMatch postRoute [])"
  by code_simp

lemma sameKeysPerRoute_iff:
  "sameKeysPerRoute ms \<longleftrightarrow>
     (\<forall>a\<in>set ms. \<forall>b\<in>set ms. oid (route a) = oid (route b) \<longrightarrow>
        set (ownKeys (params a)) = set (ownKeys (params b)))"
  by (auto simp: sameKeysPerRoute_def list_all_iff)

lemma list_all2_counterpart:
  "list_all2 R xs ys \<Longrightarrow> x \<in> set xs \<Longrightarrow> \<exists>y\<in>set ys. R x y"
  by (induction rule: list_all2_induct) auto

lemma list_all2_counterpart':
  "list_all2 R xs ys \<Longrightarrow> y \<in> set ys \<Longrightarrow> \<exists>x\<in>set xs. R x y"
  by (induction rule: list_all2_induct) auto

lemma filter_without_counterpart:
  assumes keys: "sameKeysPerRoute (xs @ ys @ other)"
    and shared: "\<forall>x\<in>set xs. \<exists>z\<in>set other. equalMatch z x"
    and fresh: "\<forall>y\<in>set ys. \<forall>z\<in>set other. \<not> equalMatch z y"
  shows "filter (\<lambda>m. \<not> hasMatch other m) (xs @ ys) = ys"
proof -
  have iff: "hasMatch other m \<longleftrightarrow> (\<exists>z\<in>set other. equalMatch z m)" if "m \<in> set (xs @ ys)" for m
    using that keys by (intro hasMatch_equalMatch) (auto simp: sameKeysPerRoute_iff)
  have "filter (\<lambda>m. \<not> hasMatch other m) xs = []"
    using shared iff by (auto simp: filter_empty_conv)
  moreover have "filter (\<lambda>m. \<not> hasMatch other m) ys = ys"
    using fresh iff by (auto simp: filter_id_conv)
  ultimately show ?thesis by simp
qed

text \<open>
  C2, as the code has it. When the current chain is empty, nothing leaves and the whole
  next chain enters. When the two chains start with pairwise equal matches, no match
  after these prefixes is equal to any match of the other chain, and matches of the
  same route carry the same property names, then the leaving matches are exactly the
  rest of the current chain and the entering matches exactly the rest of the next
  chain.
\<close>

theorem diffMatches_suffixes:
  "diffMatches [] nextMatches = ([], nextMatches) \<and>
   (list_all2 equalMatch shared shared' \<and>
    (\<forall>a\<in>set leaving. \<forall>b\<in>set (shared' @ entering). \<not> equalMatch a b) \<and>
    (\<forall>b\<in>set entering. \<forall>a\<in>set (shared @ leaving). \<not> equalMatch a b) \<and>
    sameKeysPerRoute (shared @ leaving @ shared' @ entering) \<longrightarrow>
    diffMatches (shared @ leaving) (shared' @ entering) = (leaving, entering))"
proof (intro conjI impI)
  show "diffMatches [] nextMatches = ([], nextMatches)"
    by (simp add: diffMatches_def)
next
  assume h: "list_all2 equalMatch shared shared' \<and>
    (\<forall>a\<in>set leaving. \<forall>b\<in>set (shared' @ entering). \<not> equalMatch a b) \<and>
    (\<forall>b\<in>set entering. \<forall>a\<in>set (shared @ leaving). \<not> equalMatch a b) \<and>
    sameKeysPerRoute (shared @ leaving @ shared' @ entering)"
  then have sh: "list_all2 equalMatch shared shared'"
    and keys: "sameKeysPerRoute (shared @ leaving @ shared' @ entering)"
    by simp_all
  show "diffMatches (shared @ leaving) (shared' @ entering) = (leaving, entering)"
  proof (cases "shared @ leaving = []")
    case True
    then have "shared' = []" using sh by simp
    then show ?thesis using True by (simp add: diffMatches_def)
  next
    case False
    have k1: "sameKeysPerRoute (shared @ leaving @ (shared' @ entering))"
      using keys by simp
    have k2: "sameKeysPerRoute (shared' @ entering @ (shared @ leaving))"
      using keys by (auto simp: sameKeysPerRoute_iff)
    have s1: "\<forall>x\<in>set shared. \<exists>z\<in>set (shared' @ entering). equalMatch z x"
      using list_all2_counterpart [OF sh] equalMatch_sym by (metis UnCI set_append)
    have s2: "\<forall>x\<in>set shared'. \<exists>z\<in>set (shared @ leaving). equalMatch z x"
      using list_all2_counterpart' [OF sh] by (metis UnCI set_append)
    have f1: "\<forall>y\<in>set leaving. \<forall>z\<in>set (shared' @ entering). \<not> equalMatch z y"
      using h equalMatch_sym by blast
    have f2: "\<forall>y\<in>set entering. \<forall>z\<in>set (shared @ leaving). \<not> equalMatch z y"
      using h equalMatch_sym by blast
    show ?thesis
      using False filter_without_counterpart [OF k1 s1 f1]
        filter_without_counterpart [OF k2 s2 f2]
      by (simp add: diffMatches_def)
  qed
qed

text \<open>
  C2 as stated fails without the condition on the property names. The two chains share
  the application match and differ in the post match, whose parameters in the current
  chain have one property more; the diff finds a counterpart for the current post
  match, so nothing leaves, while the next post match enters.
\<close>

theorem diffMatches_suffixes_counterexample:
  "equalMatch (newMatch appRoute []) (newMatch appRoute []) \<and>
   \<not> equalMatch (newMatch postRoute [(''id'', Str ''123''), (''tab'', Str ''all'')])
       (newMatch postRoute [(''id'', Str ''123'')]) \<and>
   \<not> equalMatch (newMatch postRoute [(''id'', Str ''123''), (''tab'', Str ''all'')])
       (newMatch appRoute []) \<and>
   \<not> equalMatch (newMatch postRoute [(''id'', Str ''123'')]) (newMatch appRoute []) \<and>
   map (\<lambda>m. oid (route m))
     (fst (diffMatches
        [newMatch appRoute [], newMatch postRoute [(''id'', Str ''123''), (''tab'', Str ''all'')]]
        [newMatch appRoute [], newMatch postRoute [(''id'', Str ''123'')]])) = [] \<and>
   map (\<lambda>m. oid (route m))
     (snd (diffMatches
        [newMatch appRoute [], newMatch postRoute [(''id'', Str ''123''), (''tab'', Str ''all'')]]
        [newMatch appRoute [], newMatch postRoute [(''id'', Str ''123'')]])) = [2]"
  by code_simp

text \<open>
  From \<open>/posts/123\<close> to \<open>/posts/456\<close>: the application match is shared, the post
  match with \<open>id = 123\<close> leaves and the one with \<open>id = 456\<close> enters.
\<close>

theorem diffMatches_suffixes_witness:
  "list_all2 equalMatch [newMatch appRoute []] [newMatch appRoute []] \<and>
   sameKeysPerRoute
     ([newMatch appRoute []] @ [newMatch postRoute [(''id'', Str ''123'')]] @
      [newMatch appRoute []] @ [newMatch postRoute [(''id'', Str ''456'')]]) \<and>
   diffMatches
     [newMatch appRoute [], newMatch postRoute [(''id'', Str ''123'')]]
     [newMatch appRoute [], newMatch postRoute [(''id'', Str ''456'')]] =
   ([newMatch postRoute [(''id'', Str ''123'')]], [newMatch postRoute [(''id'', Str ''456'')]])"
proof -
  have h: "list_all2 equalMatch [newMatch appRoute []] [newMatch appRoute []] \<and>
    (\<forall>a\<in>set [newMatch postRoute [(''id'', Str ''123'')]].
       \<forall>b\<in>set ([newMatch appRoute []] @ [newMatch postRoute [(''id'', Str ''456'')]]).
         \<not> equalMatch a b) \<and>
    (\<forall>b\<in>set [newMatch postRoute [(''id'', Str ''456'')]].
       \<forall>a\<in>set ([newMatch appRoute []] @ [newMatch postRoute [(''id'', Str ''123'')]]).
         \<not> equalMatch a b) \<and>
    sameKeysPerRoute
     ([newMatch appRoute []] @ [newMatch postRoute [(''id'', Str ''123'')]] @
      [newMatch appRoute []] @ [newMatch postRoute [(''id'', Str ''456'')]])"
    by code_simp
  show ?thesis
    using h diffMatches_suffixes
      [of "[]" "[newMatch appRoute []]" "[newMatch appRoute []]"
          "[newMatch postRoute [(''id'', Str ''123'')]]"
          "[newMatch postRoute [(''id'', Str ''456'')]]"]
    by simp
qed

lemma take_kept:
  assumes "cur = kept @ filter (\<lambda>m. \<not> Q m) cur"
  shows "take (length cur - length (filter (\<lambda>m. \<not> Q m) cur)) cur = filter Q cur"
proof -
  define L where "L = filter (\<lambda>m. \<not> Q m) cur"
  have cur: "cur = kept @ L" using assms by (simp add: L_def)
  have "filter (\<lambda>m. \<not> Q m) L = L"
    by (simp add: L_def)
  then have "L = filter (\<lambda>m. \<not> Q m) kept @ L"
    using cur L_def by (metis filter_append)
  then have "filter (\<lambda>m. \<not> Q m) kept = []" by simp
  then have "filter Q kept = kept"
    by (auto simp: filter_empty_conv filter_id_conv)
  moreover have "filter Q L = []"
    by (auto simp: L_def filter_empty_conv)
  ultimately have "filter Q cur = kept" using cur by (metis append_Nil2 filter_append)
  moreover have "take (length cur - length L) cur = kept"
    using cur by simp
  ultimately show ?thesis by (simp add: L_def)
qed

section \<open>runHooks is a serial pass\<close>

lemma reduceHooks_registered:
  "reduceHooks hs (Some c) w = (Returns (Some (foldl Then c hs)), w)"
  by (induction hs arbitrary: c) simp_all

lemma stepHook_settle:
  "stepHook h (Async (fst (settle c w))) (snd (settle c w)) =
     (Async (fst (settle (Then c h) w)), snd (settle (Then c h) w))"
  by (cases "settle c w"; cases "fst (settle c w)")
     (auto simp: proceed_def split: prod.splits completion.splits option.splits)

lemma runSerial_settle:
  "runSerial hs (Async (fst (settle c w))) (snd (settle c w)) =
     (Async (fst (settle (foldl Then c hs) w)), snd (settle (foldl Then c hs) w))"
proof (induction hs arbitrary: c)
  case Nil
  show ?case by simp
next
  case (Cons h hs)
  show ?case
    using Cons.IH [of "Then c h"] by (simp add: stepHook_settle del: settle.simps)
qed

lemma runSerial_Thrown: "runSerial hs (Thrown e) w = (Thrown e, w)"
  by (induction hs) simp_all

lemma runSerial_attached:
  "runSerial hs (Async (fst (await q w))) (snd (await q w)) =
     (Async (fst (settle (foldl Then (Attached q) hs) w)),
      snd (settle (foldl Then (Attached q) hs) w))"
  using runSerial_settle [of hs "Attached q" w] by simp

text \<open>
  The reduce that builds the promise chain, followed by the settling of the chain and
  the timer, computes the one-pass reading of the hooks.
\<close>

lemma runHooks_serial: "runHooks hooks k w = finish k (runSerial hooks Sync w)"
proof (induction hooks arbitrary: w)
  case Nil
  show ?case by (simp add: runHooks_def finish_def)
next
  case (Cons h hs)
  obtain c w1 where hw: "h w = (c, w1)" by (cases "h w")
  show ?case
  proof (cases c)
    case (Throws e)
    then show ?thesis
      using hw by (simp add: runHooks_def finish_def runSerial_Thrown proceed_def)
  next
    case (Returns v)
    show ?thesis
    proof (cases v)
      case None
      then show ?thesis
        using hw Returns Cons.IH [of w1] by (simp add: runHooks_def proceed_def)
    next
      case (Some q)
      obtain s w2 where aw: "await q w1 = (s, w2)" by (cases "await q w1")
      have "runSerial hs (Async s) w2 =
              (Async (fst (settle (foldl Then (Attached q) hs) w1)),
               snd (settle (foldl Then (Attached q) hs) w1))"
        using runSerial_attached [of hs q w1] aw by simp
      then show ?thesis
        using hw Returns Some aw
        by (cases "settle (foldl Then (Attached q) hs) w1";
            cases "fst (settle (foldl Then (Attached q) hs) w1)")
           (simp_all add: runHooks_def finish_def reduceHooks_registered proceed_def
              del: settle.simps)
    qed
  qed
qed

lemma finish_resume:
  "finish k (m, w) = (if m = Async Pending then w else k (errorOf m) (resume m w))"
  by (auto simp: finish_def errorOf_def resume_def split: mode.splits settled.splits)

section \<open>What the hooks preserve\<close>

lemma leaveHook_shape: "hookShape (leaveHook x)"
  unfolding hookShape_def
proof (intro allI impI)
  fix w c w'
  assume run: "leaveHook x w = (c, w')"
  show "(c = Returns (promise (trans w)) \<and> w' = w\<lparr>trans := (trans w)\<lparr>promise := None\<rparr>\<rparr>) \<or>
        (\<not> isAborted (trans w) \<and>
         (\<exists>i t. w' = w\<lparr>trans := t,
                      events := events w @ [Invoked Leaving i (turn w) (trans w) t c]\<rparr>)) \<or>
        (\<not> isAborted (trans w) \<and>
         (\<exists>i t e. c = Throws e \<and>
                 w' = w\<lparr>trans := t,
                      events := events w @ [Invoked Entering i (turn w) (trans w) t c]\<rparr>)) \<or>
        (\<not> isAborted (trans w) \<and>
         (\<exists>i t v. c = Returns (promise t) \<and>
                 w' = w\<lparr>trans := t\<lparr>promise := None\<rparr>,
                      events := events w @ [Invoked Entering i (turn w) (trans w) t (Returns v)]\<rparr>))"
  proof (cases "if isAborted (trans w) then None else willTransitionFrom (handler (route x))")
    case None
    then show ?thesis
      using run by (simp add: leaveHook_def takePromise_def)
  next
    case (Some f)
    then have live: "\<not> isAborted (trans w)"
      by (auto split: if_splits)
    obtain c0 t where f: "f (element x) (trans w) = (c0, t)"
      by (cases "f (element x) (trans w)")
    have "w' = w\<lparr>trans := t,
                 events := events w @ [Invoked Leaving (oid (route x)) (turn w) (trans w) t c]\<rparr>"
      using run Some f by (auto simp: leaveHook_def)
    then show ?thesis using live by blast
  qed
qed

lemma enterHook_shape: "hookShape (enterHook q x)"
  unfolding hookShape_def
proof (intro allI impI)
  fix w c w'
  assume run: "enterHook q x w = (c, w')"
  let ?skip = "c = Returns (promise (trans w)) \<and> w' = w\<lparr>trans := (trans w)\<lparr>promise := None\<rparr>\<rparr>"
  let ?leave = "\<not> isAborted (trans w) \<and>
         (\<exists>i t. w' = w\<lparr>trans := t,
                      events := events w @ [Invoked Leaving i (turn w) (trans w) t c]\<rparr>)"
  let ?threw = "\<not> isAborted (trans w) \<and>
         (\<exists>i t e. c = Throws e \<and>
                 w' = w\<lparr>trans := t,
                      events := events w @ [Invoked Entering i (turn w) (trans w) t c]\<rparr>)"
  let ?returned = "\<not> isAborted (trans w) \<and>
         (\<exists>i t v. c = Returns (promise t) \<and>
                 w' = w\<lparr>trans := t\<lparr>promise := None\<rparr>,
                      events := events w @ [Invoked Entering i (turn w) (trans w) t (Returns v)]\<rparr>)"
  show "?skip \<or> ?leave \<or> ?threw \<or> ?returned"
  proof (cases "if isAborted (trans w) then None else willTransitionTo (handler (route x))")
    case None
    then have ?skip
      using run by (simp add: enterHook_def takePromise_def)
    then show ?thesis by blast
  next
    case (Some f)
    then have live: "\<not> isAborted (trans w)"
      by (auto split: if_splits)
    obtain c0 t where f: "f (params x) q (trans w) = (c0, t)"
      by (cases "f (params x) q (trans w)")
    show ?thesis
    proof (cases c0)
      case (Throws e)
      then have "c = Throws e \<and>
          w' = w\<lparr>trans := t,
                 events := events w @ [Invoked Entering (oid (route x)) (turn w) (trans w) t c]\<rparr>"
        using run Some f by (auto simp: enterHook_def)
      then have ?threw using live by blast
      then show ?thesis by blast
    next
      case (Returns v)
      then have "c = Returns (promise t) \<and>
          w' = w\<lparr>trans := t\<lparr>promise := None\<rparr>,
                 events := events w @
                   [Invoked Entering (oid (route x)) (turn w) (trans w) t (Returns v)]\<rparr>"
        using run Some f by (auto simp: enterHook_def takePromise_def)
      then have ?returned using live by blast
      then show ?thesis by blast
    qed
  qed
qed

lemma hookShapeE:
  assumes "hookShape h" and "h w = (c, w')"
  obtains
    (skip) "c = Returns (promise (trans w))" "w' = w\<lparr>trans := (trans w)\<lparr>promise := None\<rparr>\<rparr>"
  | (left) i t where "\<not> isAborted (trans w)"
      "w' = w\<lparr>trans := t, events := events w @ [Invoked Leaving i (turn w) (trans w) t c]\<rparr>"
  | (threw) i t e where "\<not> isAborted (trans w)" "c = Throws e"
      "w' = w\<lparr>trans := t, events := events w @ [Invoked Entering i (turn w) (trans w) t c]\<rparr>"
  | (returned) i t v where "\<not> isAborted (trans w)" "c = Returns (promise t)"
      "w' = w\<lparr>trans := t\<lparr>promise := None\<rparr>,
             events := events w @ [Invoked Entering i (turn w) (trans w) t (Returns v)]\<rparr>"
proof -
  from assms have
    "(c = Returns (promise (trans w)) \<and> w' = w\<lparr>trans := (trans w)\<lparr>promise := None\<rparr>\<rparr>) \<or>
        (\<not> isAborted (trans w) \<and>
         (\<exists>i t. w' = w\<lparr>trans := t,
                      events := events w @ [Invoked Leaving i (turn w) (trans w) t c]\<rparr>)) \<or>
        (\<not> isAborted (trans w) \<and>
         (\<exists>i t e. c = Throws e \<and>
                 w' = w\<lparr>trans := t,
                      events := events w @ [Invoked Entering i (turn w) (trans w) t c]\<rparr>)) \<or>
        (\<not> isAborted (trans w) \<and>
         (\<exists>i t v. c = Returns (promise t) \<and>
                 w' = w\<lparr>trans := t\<lparr>promise := None\<rparr>,
                      events := events w @ [Invoked Entering i (turn w) (trans w) t (Returns v)]\<rparr>))"
    unfolding hookShape_def by blast
  then show thesis
    using skip left threw returned by blast
qed

lemma runSerial_invariant:
  assumes "I m w"
    and "\<And>h m w m1 w1. h \<in> set hs \<Longrightarrow> I m w \<Longrightarrow> stepHook h m w = (m1, w1) \<Longrightarrow> I m1 w1"
    and "runSerial hs m w = (m', w')"
  shows "I m' w'"
  using assms
proof (induction hs arbitrary: m w)
  case Nil
  then show ?case by simp
next
  case (Cons h hs)
  obtain m1 w1 where s: "stepHook h m w = (m1, w1)" by (cases "stepHook h m w")
  have "I m1 w1" using Cons.prems(1,2) s by (meson list.set_intros(1))
  moreover have "runSerial hs m1 w1 = (m', w')" using Cons.prems(3) s by simp
  ultimately show ?case
    using Cons.IH [of m1 w1] Cons.prems(2) by (meson list.set_intros(2))
qed

lemma stepHook_cases:
  assumes "stepHook h m w = (m1, w1)"
  obtains (idle) "m1 = m" "w1 = w" "m \<noteq> Sync" "m \<noteq> Async Fulfilled"
  | (now) c w' where "m = Sync" "h w = (c, w')" "proceed Sync c w' = (m1, w1)"
  | (later) c w' where "m = Async Fulfilled" "h (tick w) = (c, w')"
      "proceed (Async Fulfilled) c w' = (m1, w1)"
proof (cases m)
  case Sync
  then show ?thesis
    using assms now by (cases "h w") auto
next
  case (Thrown e)
  then show ?thesis using assms idle by auto
next
  case (Async s)
  then show ?thesis
    using assms idle later
    by (cases s; cases "h (tick w)") auto
qed

lemma tick_fields [simp]:
  "router (tick w) = router w" "trans (tick w) = trans w" "events (tick w) = events w"
  "turn (tick w) = Suc (turn w)"
  by (simp_all add: tick_def)

lemma resume_fields [simp]:
  "router (resume m w) = router w" "trans (resume m w) = trans w"
  "events (resume m w) = events w" "turn (resume Sync w) = turn w"
  by (simp_all add: resume_def split: mode.splits)

lemma settleAbort_fields [simp]:
  "router (settleAbort why w) = router w" "turn (settleAbort why w) = turn w"
  "trans (settleAbort why w) = abort why (trans w)"
  "events (settleAbort why w) =
     events w @ [Settled (Suc (turn w)) (trans w) (abort why (trans w))]"
  by (simp_all add: settleAbort_def)

lemma abort_fields [simp]:
  "isAborted (abort why t)" "abortReason (abort why t) = Some why"
  "promise (abort why t) = promise t"
  by (simp_all add: abort_def)

lemma await_invariant:
  assumes "I w" and "\<And>why w1. I w1 \<Longrightarrow> I (settleAbort why w1)"
  shows "I (snd (await q w))"
proof -
  have "I (foldl (\<lambda>w1 why. settleAbort why w1) w rs)" for rs
    using assms by (induction rs arbitrary: w) auto
  then show ?thesis by (simp add: await_def)
qed

lemma await_fst [simp]: "fst (await q w) = adopt q"
  by (simp add: await_def)

lemma await_base:
  "router (snd (await q w)) = router w"
  "turn (snd (await q w)) = turn w"
  "promise (trans (snd (await q w))) = promise (trans w)"
  "list_ex isCalled (events (snd (await q w))) = list_ex isCalled (events w)"
  "list_ex stalls (events (snd (await q w))) = list_ex stalls (events w)"
  "list_ex waits (events (snd (await q w))) = list_ex waits (events w)"
  "list_ex throws (events (snd (await q w))) = list_ex throws (events w)"
  "hookCalls (events (snd (await q w))) = hookCalls (events w)"
proof -
  let ?I = "\<lambda>w1. router w1 = router w \<and> turn w1 = turn w \<and>
     promise (trans w1) = promise (trans w) \<and>
     list_ex isCalled (events w1) = list_ex isCalled (events w) \<and>
     list_ex stalls (events w1) = list_ex stalls (events w) \<and>
     list_ex waits (events w1) = list_ex waits (events w) \<and>
     list_ex throws (events w1) = list_ex throws (events w) \<and>
     hookCalls (events w1) = hookCalls (events w)"
  have "?I (snd (await q w))"
    by (rule await_invariant) (simp_all add: hookCalls_def)
  then show
    "router (snd (await q w)) = router w"
    "turn (snd (await q w)) = turn w"
    "promise (trans (snd (await q w))) = promise (trans w)"
    "list_ex isCalled (events (snd (await q w))) = list_ex isCalled (events w)"
    "list_ex stalls (events (snd (await q w))) = list_ex stalls (events w)"
    "list_ex waits (events (snd (await q w))) = list_ex waits (events w)"
    "list_ex throws (events (snd (await q w))) = list_ex throws (events w)"
    "hookCalls (events (snd (await q w))) = hookCalls (events w)"
    by simp_all
qed

lemma hook_base:
  assumes "hookShape h" and "h w = (c, w')"
  shows "router w' = router w" and "list_ex isCalled (events w') = list_ex isCalled (events w)"
    and "turn w' = turn w"
  using assms by (auto elim!: hookShapeE)

lemma abortInv_first:
  assumes "events w' = events w @ [e]" and "\<not> list_ex aborting (events w)"
    and "aborting e" and "isAborted (trans w')"
    and "abortReason (trans w') = reasonLeft e"
  shows "abortInv m' w'"
  unfolding abortInv_def
  using assms
  by (intro disjI2 exI [of _ "events w"] exI [of _ e] exI [of _ "[]"]) simp

lemma abortInv_clean:
  assumes "events w' = events w @ [e]" and "\<not> list_ex aborting (events w)"
    and "\<not> aborting e" and "\<not> isAborted (trans w')"
  shows "abortInv m' w'"
  unfolding abortInv_def using assms by simp

lemma hook_abortInv:
  assumes "hookShape h" and "h w = (c, w')" and "abortInv m w"
  shows "abortInv m' w'"
  using assms(1,2)
proof (cases rule: hookShapeE)
  case skip
  then show ?thesis using assms(3) by (auto simp: abortInv_def)
next
  case (left i t)
  then have clean: "\<not> list_ex aborting (events w)"
    using assms(3) by (auto simp: abortInv_def)
  show ?thesis
  proof (cases "isAborted t")
    case True
    then show ?thesis
      using left clean by (intro abortInv_first [where w = w and w' = w']) (simp, simp_all)
  next
    case False
    then show ?thesis
      using left clean by (intro abortInv_clean [where w = w and w' = w']) (simp, simp_all)
  qed
next
  case (threw i t e)
  then have clean: "\<not> list_ex aborting (events w)"
    using assms(3) by (auto simp: abortInv_def)
  show ?thesis
  proof (cases "isAborted t")
    case True
    then show ?thesis
      using threw clean by (intro abortInv_first [where w = w and w' = w']) (simp, simp_all)
  next
    case False
    then show ?thesis
      using threw clean by (intro abortInv_clean [where w = w and w' = w']) (simp, simp_all)
  qed
next
  case (returned i t v)
  then have clean: "\<not> list_ex aborting (events w)"
    using assms(3) by (auto simp: abortInv_def)
  show ?thesis
  proof (cases "isAborted t")
    case True
    then show ?thesis
      using returned clean by (intro abortInv_first [where w = w and w' = w']) (simp, simp_all)
  next
    case False
    then show ?thesis
      using returned clean by (intro abortInv_clean [where w = w and w' = w']) (simp, simp_all)
  qed
qed

lemma settleAbort_abortInv:
  assumes "abortInv m w"
  shows "abortInv m' (settleAbort why w)"
proof (cases "list_ex aborting (events w)")
  case False
  then show ?thesis
    by (intro abortInv_first [where w = w and w' = "settleAbort why w"]) (simp, simp_all)
next
  case True
  then obtain l e zs where
    l: "events w = l @ e # zs" "aborting e" "\<not> list_ex aborting l" "list_all isSettled zs"
    using assms by (auto simp: abortInv_def)
  let ?s = "Settled (Suc (turn w)) (trans w) (abort why (trans w))"
  have "events (settleAbort why w) = l @ e # (zs @ [?s])"
    using l(1) by simp
  moreover have "list_all isSettled (zs @ [?s])"
    using l(4) by simp
  moreover have "abortReason (trans (settleAbort why w)) = reasonLeft (last (e # (zs @ [?s])))"
    by simp
  moreover have "isAborted (trans (settleAbort why w))"
    by simp
  ultimately show ?thesis
    unfolding abortInv_def using l(2,3) by blast
qed

lemma await_abortInv:
  assumes "abortInv m w"
  shows "abortInv m' (snd (await q w))"
proof -
  have "abortInv m (snd (await q w))"
    using assms by (rule await_invariant) (rule settleAbort_abortInv)
  then show ?thesis
    by (simp add: abortInv_def)
qed

lemma hook_stall:
  assumes "hookShape h" and "h w = (c, w')"
    and "list_ex stalls (events w) \<or> \<not> pends (promise (trans w))"
  shows "list_ex stalls (events w') \<or>
         (\<not> pends (promise (trans w')) \<and>
          (case c of Returns v \<Rightarrow> \<not> pends v | Throws e \<Rightarrow> True))"
  using assms(1,2)
proof (cases rule: hookShapeE)
  case skip
  then show ?thesis using assms(3) by (auto simp: pends_def)
next
  case (left i t)
  then show ?thesis
    by (auto split: completion.splits)
next
  case (threw i t e)
  then show ?thesis
    by (auto split: completion.splits)
next
  case (returned i t v)
  then show ?thesis
    by (auto simp: pends_def split: completion.splits)
qed

lemma hook_quiet:
  assumes "hookShape h" and "h w = (c, w')"
    and "list_ex waits (events w) \<or> list_ex throws (events w) \<or>
         (turn w = 0 \<and> promise (trans w) = None \<and> list_all (\<lambda>e. eventTurn e = 0) (events w))"
  shows "list_ex waits (events w') \<or> list_ex throws (events w') \<or>
         (c = Returns None \<and> turn w' = 0 \<and> promise (trans w') = None \<and>
          list_all (\<lambda>e. eventTurn e = 0) (events w'))"
  using assms(1,2)
proof (cases rule: hookShapeE)
  case skip
  then show ?thesis using assms(3) by auto
next
  case (left i t)
  then show ?thesis
    using assms(3) by (auto split: option.splits completion.splits)
next
  case (threw i t e)
  then show ?thesis
    using assms(3) by (auto split: option.splits completion.splits)
next
  case (returned i t v)
  then show ?thesis
    using assms(3) by (auto split: option.splits completion.splits)
qed

lemma proceed_phaseInv:
  assumes step: "proceed m0 c w' = (m1, w1)"
    and m0: "m0 = Sync \<or> m0 = Async Fulfilled"
    and b: "router w' = r0" "\<not> list_ex isCalled (events w')"
    and a: "abortInv m0 w'"
    and s: "list_ex stalls (events w') \<or>
            (\<not> pends (promise (trans w')) \<and>
             (case c of Returns v \<Rightarrow> \<not> pends v | Throws e \<Rightarrow> True))"
    and q: "list_ex waits (events w') \<or> list_ex throws (events w') \<or>
            (m0 = Sync \<and> c = Returns None \<and> turn w' = 0 \<and> promise (trans w') = None \<and>
             list_all (\<lambda>e. eventTurn e = 0) (events w'))"
  shows "phaseInv r0 m1 w1"
proof (cases c)
  case (Throws e)
  then have "w1 = w'" "m1 = Thrown e \<or> m1 = Async (Rejected e)"
    using step m0 by (auto simp: proceed_def)
  then show ?thesis
    using Throws b a s q
    by (auto simp: phaseInv_def baseInv_def abortInv_def stallInv_def quietInv_def)
next
  case (Returns v)
  show ?thesis
  proof (cases v)
    case None
    then have "w1 = w'" "m1 = m0"
      using step Returns by (auto simp: proceed_def)
    then show ?thesis
      using Returns None m0 b a s q
      by (auto simp: phaseInv_def baseInv_def abortInv_def stallInv_def quietInv_def)
  next
    case (Some p)
    then have w1: "w1 = snd (await p w')" and m1: "m1 = Async (adopt p)"
      using step Returns
      by (auto simp: proceed_def await_def split: prod.splits)
    have "baseInv r0 m1 w1"
      using b by (simp add: baseInv_def w1 await_base)
    moreover have "abortInv m1 w1"
      using a by (simp add: w1 await_abortInv)
    moreover have "stallInv m1 w1"
      using s Returns Some by (auto simp: stallInv_def w1 m1 await_base pends_def)
    moreover have "quietInv m1 w1"
      using q Returns Some by (auto simp: quietInv_def w1 await_base)
    ultimately show ?thesis
      by (simp add: phaseInv_def)
  qed
qed

lemma stepHook_phaseInv:
  assumes h: "hookShape h" and inv: "phaseInv r0 m w" and step: "stepHook h m w = (m1, w1)"
  shows "phaseInv r0 m1 w1"
  using step
proof (cases rule: stepHook_cases)
  case idle
  then show ?thesis using inv by simp
next
  case (now c w')
  have b: "router w' = r0" "\<not> list_ex isCalled (events w')"
    using hook_base [OF h now(2)] inv by (simp_all add: phaseInv_def baseInv_def)
  have a: "abortInv Sync w'"
    using hook_abortInv [OF h now(2), of m Sync] inv by (simp add: phaseInv_def)
  have "list_ex stalls (events w) \<or> \<not> pends (promise (trans w))"
    using inv by (auto simp: phaseInv_def stallInv_def)
  note s = hook_stall [OF h now(2) this]
  have "list_ex waits (events w) \<or> list_ex throws (events w) \<or>
         (turn w = 0 \<and> promise (trans w) = None \<and> list_all (\<lambda>e. eventTurn e = 0) (events w))"
    using inv by (auto simp: phaseInv_def quietInv_def)
  from hook_quiet [OF h now(2) this]
  have q: "list_ex waits (events w') \<or> list_ex throws (events w') \<or>
            (Sync = Sync \<and> c = Returns None \<and> turn w' = 0 \<and> promise (trans w') = None \<and>
             list_all (\<lambda>e. eventTurn e = 0) (events w'))"
    by simp
  show ?thesis
    by (rule proceed_phaseInv [OF now(3) _ b a s q]) simp
next
  case (later c w')
  have b: "router w' = r0" "\<not> list_ex isCalled (events w')"
    using hook_base [OF h later(2)] inv by (simp_all add: phaseInv_def baseInv_def)
  have "abortInv m (tick w)"
    using inv by (simp add: phaseInv_def abortInv_def)
  from hook_abortInv [OF h later(2) this] have a: "abortInv (Async Fulfilled) w'" .
  have "list_ex stalls (events (tick w)) \<or> \<not> pends (promise (trans (tick w)))"
    using inv by (auto simp: phaseInv_def stallInv_def)
  note s = hook_stall [OF h later(2) this]
  have noisy: "list_ex waits (events (tick w)) \<or> list_ex throws (events (tick w))"
    using inv later(1) by (auto simp: phaseInv_def quietInv_def)
  have "list_ex waits (events w') \<or> list_ex throws (events w')"
    using h later(2) noisy by (cases rule: hookShapeE) auto
  then have q: "list_ex waits (events w') \<or> list_ex throws (events w') \<or>
            (Async Fulfilled = Sync \<and> c = Returns None \<and> turn w' = 0 \<and>
             promise (trans w') = None \<and> list_all (\<lambda>e. eventTurn e = 0) (events w'))"
    by blast
  show ?thesis
    by (rule proceed_phaseInv [OF later(3) _ b a s q]) simp
qed

lemma runSerial_phaseInv:
  assumes "\<forall>h\<in>set hs. hookShape h" and "phaseInv r0 m w" and "runSerial hs m w = (m', w')"
  shows "phaseInv r0 m' w'"
  using runSerial_invariant [of "phaseInv r0" m w hs m' w'] assms stepHook_phaseInv
  by blast

lemma resume_phaseInv:
  assumes inv: "phaseInv r0 m w" and live: "m \<noteq> Async Pending"
  shows "phaseInv r0 Sync (resume m w)"
proof (cases "m = Sync")
  case True
  then show ?thesis using inv by (simp add: resume_def)
next
  case False
  then have noisy: "list_ex waits (events w) \<or> list_ex throws (events w)"
    using inv by (auto simp: phaseInv_def quietInv_def)
  have "baseInv r0 Sync (resume m w)"
    using inv by (simp add: phaseInv_def baseInv_def)
  moreover have "abortInv Sync (resume m w)"
    using inv by (simp add: phaseInv_def abortInv_def)
  moreover have "stallInv Sync (resume m w)"
    using inv live by (auto simp: phaseInv_def stallInv_def)
  moreover have "quietInv Sync (resume m w)"
    using noisy by (auto simp: quietInv_def)
  ultimately show ?thesis
    by (simp add: phaseInv_def)
qed

lemma initial_phaseInv:
  "phaseInv r Sync \<lparr>router = r, trans = newTransition p, turn = 0, events = []\<rparr>"
  by (simp add: phaseInv_def baseInv_def abortInv_def stallInv_def quietInv_def
      newTransition_def pends_def)

lemma leaveHooks_shape: "\<forall>h\<in>set (map leaveHook ms). hookShape h"
  by (simp add: leaveHook_shape)

lemma enterHooks_shape: "\<forall>h\<in>set (map (enterHook q) ms). hookShape h"
  by (simp add: enterHook_shape)

lemma callback_fields [simp]:
  "router (callback err w) = router w" "trans (callback err w) = trans w"
  "events (callback err w) = events w @ [Called err (abortReason (trans w)) (turn w)]"
  by (simp_all add: callback_def)

lemma storeNextState_fields [simp]:
  "trans (storeNextState cur fromMatches toMatches p q w) = trans w"
  "events (storeNextState cur fromMatches toMatches p q w) =
     events w @ [Called None None (turn w)]"
  "router (storeNextState cur fromMatches toMatches p q w) =
     (router w)\<lparr>nextState :=
        Some (Resolved (take (length cur - length fromMatches) cur @ toMatches) p
               (map route (take (length cur - length fromMatches) cur @ toMatches))
               (case getRootMatch (take (length cur - length fromMatches) cur @ toMatches) of
                  Some m \<Rightarrow> params m | None \<Rightarrow> [])
               q)\<rparr>"
  by (simp_all add: storeNextState_def Let_def)

section \<open>The ways a dispatch ends\<close>

text \<open>
  A dispatch that does not throw ends in one of three ways: a phase hangs on a promise
  that never settles and the callback is never called; a phase ends with an error or
  an aborted transition and the callback reports it; or both phases pass and the
  pending state is stored.
\<close>

lemma dispatch_cases:
  assumes run: "dispatch P r p = Inr w"
  obtains
    (stuck) "phaseInv r (Async Pending) w"
  | (stopped) m w1 where "phaseInv r m w1" "m \<noteq> Async Pending"
      "truthy (errorOf m) \<or> isAborted (trans w1)" "w = callback (errorOf m) (resume m w1)"
  | (stored) s m w1 where "state r = Some s" "phaseInv r m w1" "m \<noteq> Async Pending"
      "\<not> truthy (errorOf m)" "\<not> isAborted (trans w1)"
      "w = storeNextState (currentChain s)
             (fst (diffMatches (currentChain s) (nextChain P r p)))
             (snd (diffMatches (currentChain s) (nextChain P r p))) p (parsedQuery P p)
             (resume m w1)"
proof -
  obtain s where s: "state r = Some s"
    using run by (cases "state r") (auto simp: dispatch_def)
  define cur where "cur = currentChain s"
  define fromMatches where "fromMatches = fst (diffMatches cur (nextChain P r p))"
  define toMatches where "toMatches = snd (diffMatches cur (nextChain P r p))"
  define q where "q = parsedQuery P p"
  define w0 where "w0 = \<lparr>router = r, trans = newTransition p, turn = 0, events = []\<rparr>"
  obtain m1 w1 where leave: "runSerial (map leaveHook (rev fromMatches)) Sync w0 = (m1, w1)"
    by (cases "runSerial (map leaveHook (rev fromMatches)) Sync w0")
  have inv1: "phaseInv r m1 w1"
    using runSerial_phaseInv [OF leaveHooks_shape _ leave] initial_phaseInv
    by (simp add: w0_def)
  define k2 where "k2 = (\<lambda>error w.
       if truthy error \<or> isAborted (trans w) then callback error w
       else storeNextState cur fromMatches toMatches p q w)"
  have w: "w = finish (\<lambda>error w.
                      if truthy error \<or> isAborted (trans w) then callback error w
                      else finish k2 (runSerial (map (enterHook q) toMatches) Sync w))
                 (m1, w1)"
    using run s leave
    unfolding dispatch_def runTransitionFromHooks_def runTransitionToHooks_def
      runHooks_serial cur_def fromMatches_def toMatches_def q_def w0_def k2_def
    by (simp add: Let_def split_beta)
  show thesis
  proof (cases "m1 = Async Pending")
    case True
    then show ?thesis using stuck inv1 w by (simp add: finish_resume)
  next
    case live1: False
    show ?thesis
    proof (cases "truthy (errorOf m1) \<or> isAborted (trans w1)")
      case True
      then have "w = callback (errorOf m1) (resume m1 w1)"
        using w live1 by (auto simp: finish_resume)
      then show ?thesis using stopped [OF inv1 live1 True] by simp
    next
      case go: False
      obtain m2 w2 where enter:
        "runSerial (map (enterHook q) toMatches) Sync (resume m1 w1) = (m2, w2)"
        by (cases "runSerial (map (enterHook q) toMatches) Sync (resume m1 w1)")
      have "phaseInv r Sync (resume m1 w1)"
        using resume_phaseInv [OF inv1 live1] .
      from runSerial_phaseInv [OF enterHooks_shape this enter]
      have inv2: "phaseInv r m2 w2" .
      have w': "w = finish k2 (m2, w2)"
        using w live1 go enter by (simp add: finish_resume)
      show ?thesis
      proof (cases "m2 = Async Pending")
        case True
        then show ?thesis using stuck inv2 w' by (simp add: finish_resume)
      next
        case live2: False
        show ?thesis
        proof (cases "truthy (errorOf m2) \<or> isAborted (trans w2)")
          case True
          then have "w = callback (errorOf m2) (resume m2 w2)"
            using w' live2 by (auto simp: finish_resume k2_def)
          then show ?thesis using stopped [OF inv2 live2 True] by simp
        next
          case False
          then have "w = storeNextState cur fromMatches toMatches p q (resume m2 w2)"
            using w' live2 by (auto simp: finish_resume k2_def)
          then show ?thesis
            using stored [OF s inv2 live2] False
            by (simp add: cur_def fromMatches_def toMatches_def q_def)
        qed
      qed
    qed
  qed
qed



lemma dispatch_success:
  assumes run: "dispatch P r p = Inr w"
    and ok: "Called None why tn \<in> set (events w)"
    and live: "\<not> isAborted (trans w)"
  shows "\<exists>s. state r = Some s \<and>
           router w =
             r\<lparr>nextState :=
                 Some (Resolved
                   (take (length (currentChain s)
                          - length (fst (diffMatches (currentChain s) (nextChain P r p))))
                      (currentChain s)
                    @ snd (diffMatches (currentChain s) (nextChain P r p)))
                   p
                   (map route
                     (take (length (currentChain s)
                            - length (fst (diffMatches (currentChain s) (nextChain P r p))))
                        (currentChain s)
                      @ snd (diffMatches (currentChain s) (nextChain P r p))))
                   (case getRootMatch
                      (take (length (currentChain s)
                             - length (fst (diffMatches (currentChain s) (nextChain P r p))))
                         (currentChain s)
                       @ snd (diffMatches (currentChain s) (nextChain P r p))) of
                      Some m \<Rightarrow> params m | None \<Rightarrow> [])
                   (parsedQuery P p))\<rparr>"
  using run
proof (cases rule: dispatch_cases)
  case stuck
  then have "\<not> list_ex isCalled (events w)"
    by (simp add: phaseInv_def baseInv_def)
  then show ?thesis
    using ok by (auto simp: list_ex_iff)
next
  case (stopped m w1)
  have "\<not> list_ex isCalled (events w1)"
    using stopped(1) by (simp add: phaseInv_def baseInv_def)
  then have "Called None why tn \<notin> set (events w1)"
    by (auto simp: list_ex_iff)
  then have "errorOf m = None"
    using ok stopped(4) by auto
  then show ?thesis
    using stopped(3,4) live by (simp add: truthy_def)
next
  case (stored s m w1)
  then show ?thesis
    by (simp add: phaseInv_def baseInv_def)
qed

lemma ran_projr: "\<not> isl x \<Longrightarrow> x = Inr (projr x)"
  by (cases x) simp_all

section \<open>Abort\<close>




section \<open>The turn of the callback\<close>





section \<open>The pending state\<close>

lemma held: "\<not> Option.is_none x \<Longrightarrow> x = Some (the x)"
  by (cases x) simp_all

lemma leaving_suffix:
  assumes kept: "list_all (hasMatch nxt) (take k cur)"
    and left: "list_all (\<lambda>m. \<not> hasMatch nxt m) (drop k cur)"
  shows "cur = take k cur @ fst (diffMatches cur nxt)"
proof (cases "cur = []")
  case True
  then show ?thesis
    by (simp add: diffMatches_def)
next
  case False
  have "filter (\<lambda>m. \<not> hasMatch nxt m) (take k cur) = []"
    using kept by (auto simp: filter_empty_conv list_all_iff)
  moreover have "filter (\<lambda>m. \<not> hasMatch nxt m) (drop k cur) = drop k cur"
    using left by (auto simp: filter_id_conv list_all_iff)
  moreover have "filter (\<lambda>m. \<not> hasMatch nxt m) cur =
      filter (\<lambda>m. \<not> hasMatch nxt m) (take k cur) @ filter (\<lambda>m. \<not> hasMatch nxt m) (drop k cur)"
    by (metis append_take_drop_id filter_append)
  ultimately have "fst (diffMatches cur nxt) = drop k cur"
    using False by (simp add: diffMatches_def)
  then show ?thesis
    by simp
qed

text \<open>
  C3, for the dispatches in which the leaving matches form a suffix of the current
  chain, the rest of the chain being \<open>kept\<close>. On such a dispatch whose callback is called
  with no error and whose transition is not aborted, \<open>kept\<close> consists of the current
  matches that are not leaving, and the pending state holds: as matches \<open>kept\<close> followed
  by the entering matches, as routes the routes of these matches in order, the
  dispatched path and the parsed query. The state slot is what it was.
\<close>

theorem dispatch_pending_state:
  assumes run: "dispatch P r p = Inr w"
    and ok: "Called None why tn \<in> set (events w)"
    and live: "\<not> isAborted (trans w)"
    and st: "state r = Some s"
    and suffix: "currentChain s = kept @ fst (diffMatches (currentChain s) (nextChain P r p))"
  shows "kept = filter (hasMatch (nextChain P r p)) (currentChain s) \<and>
         (\<exists>ps. nextState (router w) =
            Some (Resolved (kept @ snd (diffMatches (currentChain s) (nextChain P r p))) p
                    (map route (kept @ snd (diffMatches (currentChain s) (nextChain P r p))))
                    ps (parsedQuery P p))) \<and>
         state (router w) = state r"
proof -
  from dispatch_success [OF run ok live] st have
    rw: "router w =
             r\<lparr>nextState :=
                 Some (Resolved
                   (take (length (currentChain s)
                          - length (fst (diffMatches (currentChain s) (nextChain P r p))))
                      (currentChain s)
                    @ snd (diffMatches (currentChain s) (nextChain P r p)))
                   p
                   (map route
                     (take (length (currentChain s)
                            - length (fst (diffMatches (currentChain s) (nextChain P r p))))
                        (currentChain s)
                      @ snd (diffMatches (currentChain s) (nextChain P r p))))
                   (case getRootMatch
                      (take (length (currentChain s)
                             - length (fst (diffMatches (currentChain s) (nextChain P r p))))
                         (currentChain s)
                       @ snd (diffMatches (currentChain s) (nextChain P r p))) of
                      Some m \<Rightarrow> params m | None \<Rightarrow> [])
                   (parsedQuery P p))\<rparr>"
    by auto
  have len: "length (currentChain s)
             - length (fst (diffMatches (currentChain s) (nextChain P r p))) = length kept"
    using suffix by (metis add_diff_cancel_right' length_append)
  have tk: "take (length (currentChain s)
                  - length (fst (diffMatches (currentChain s) (nextChain P r p))))
              (currentChain s) = kept"
    unfolding len using suffix by (metis append_eq_conv_conj)
  have kept: "kept = filter (hasMatch (nextChain P r p)) (currentChain s)"
  proof (cases "currentChain s = []")
    case True
    then show ?thesis using suffix by simp
  next
    case False
    then have "fst (diffMatches (currentChain s) (nextChain P r p)) =
        filter (\<lambda>m. \<not> hasMatch (nextChain P r p) m) (currentChain s)"
      by (simp add: diffMatches_def)
    then show ?thesis
      using take_kept [of "currentChain s" kept "hasMatch (nextChain P r p)"] suffix tk
      by simp
  qed
  show ?thesis
    using rw kept unfolding tk by simp
qed

text \<open>
  C3 as stated fails when the leaving matches are not a suffix of the current chain.
  After \<open>/users/1/things/2\<close> is committed, the dispatch of \<open>/users/3/things/2\<close>
  succeeds; the users match and the item match leave, the things match between them
  has a counterpart. The pending chain keeps the first match of the current chain,
  the leaving users match, and not the things match. (The things route of this tree
  does not declare the parameter of its parent; Router.js takes any tree, and the
  construction of route trees is not among the sources.)
\<close>

theorem dispatch_pending_state_counterexample:
  "\<not> isl (dispatch nestedPath visitedRouter ''/users/3/things/2'') \<and>
   events (projr (dispatch nestedPath visitedRouter ''/users/3/things/2'')) =
     [Called None None 0] \<and>
   \<not> isAborted (trans (projr (dispatch nestedPath visitedRouter ''/users/3/things/2''))) \<and>
   map (\<lambda>m. (oid (route m), params m)) (currentChain (the (state visitedRouter))) =
     [(20, [(''a'', Str ''1'')]), (21, [(''b'', Str ''2'')]),
      (22, [(''a'', Str ''1''), (''b'', Str ''2'')])] \<and>
   map (\<lambda>m. (oid (route m), params m))
     (fst (diffMatches (currentChain (the (state visitedRouter)))
            (nextChain nestedPath visitedRouter ''/users/3/things/2''))) =
     [(20, [(''a'', Str ''1'')]), (22, [(''a'', Str ''1''), (''b'', Str ''2'')])] \<and>
   map (\<lambda>m. (oid (route m), params m))
     (snd (diffMatches (currentChain (the (state visitedRouter)))
            (nextChain nestedPath visitedRouter ''/users/3/things/2''))) =
     [(20, [(''a'', Str ''3'')]), (22, [(''a'', Str ''3''), (''b'', Str ''2'')])] \<and>
   map (\<lambda>m. (oid (route m), params m))
     (matches (the (nextState (router (projr
        (dispatch nestedPath visitedRouter ''/users/3/things/2'')))))) =
     [(20, [(''a'', Str ''1'')]), (20, [(''a'', Str ''3'')]),
      (22, [(''a'', Str ''3''), (''b'', Str ''2'')])]"
  by code_simp


text \<open>
  After \<open>/posts/123\<close> is committed, the dispatch of \<open>/posts/456\<close>: the post match
  leaves, the application match before it is kept, and the pending chain is the
  application match followed by the new post match; the state slot is unchanged.
\<close>

theorem dispatch_pending_state_witness:
  "\<not> isl (dispatch examplePath postRouter ''/posts/456'') \<and>
   Called None None 0 \<in> set (events (projr (dispatch examplePath postRouter ''/posts/456''))) \<and>
   \<not> isAborted (trans (projr (dispatch examplePath postRouter ''/posts/456''))) \<and>
   map (\<lambda>m. (oid (route m), params m)) (currentChain (the (state postRouter))) =
     [(0, []), (2, [(''id'', Str ''123'')])] \<and>
   list_all (hasMatch (nextChain examplePath postRouter ''/posts/456''))
     (take 1 (currentChain (the (state postRouter)))) \<and>
   list_all (\<lambda>m. \<not> hasMatch (nextChain examplePath postRouter ''/posts/456'') m)
     (drop 1 (currentChain (the (state postRouter)))) \<and>
   map (\<lambda>m. (oid (route m), params m))
     (matches (the (nextState (router (projr (dispatch examplePath postRouter ''/posts/456'')))))) =
     [(0, []), (2, [(''id'', Str ''456'')])] \<and>
   statePath (the (nextState (router (projr (dispatch examplePath postRouter ''/posts/456''))))) =
     ''/posts/456'' \<and>
   take 1 (currentChain (the (state postRouter))) =
     filter (hasMatch (nextChain examplePath postRouter ''/posts/456''))
       (currentChain (the (state postRouter))) \<and>
   state (router (projr (dispatch examplePath postRouter ''/posts/456''))) = state postRouter"
proof -
  let ?d = "dispatch examplePath postRouter ''/posts/456''"
  let ?cur = "currentChain (the (state postRouter))"
  let ?nxt = "nextChain examplePath postRouter ''/posts/456''"
  have r: "\<not> isl ?d" by code_simp
  have ok: "Called None None 0 \<in> set (events (projr ?d))" by code_simp
  have live: "\<not> isAborted (trans (projr ?d))" by code_simp
  have some: "\<not> Option.is_none (state postRouter)" by code_simp
  have cur: "map (\<lambda>m. (oid (route m), params m)) ?cur = [(0, []), (2, [(''id'', Str ''123'')])]"
    by code_simp
  have kept: "list_all (hasMatch ?nxt) (take 1 ?cur)" by code_simp
  have left: "list_all (\<lambda>m. \<not> hasMatch ?nxt m) (drop 1 ?cur)" by code_simp
  have ms: "map (\<lambda>m. (oid (route m), params m)) (matches (the (nextState (router (projr ?d))))) =
      [(0, []), (2, [(''id'', Str ''456'')])]"
    by code_simp
  from dispatch_pending_state
    [OF ran_projr [OF r] ok live held [OF some] leaving_suffix [OF kept left]]
  have "statePath (the (nextState (router (projr ?d)))) = ''/posts/456'' \<and>
        take 1 ?cur = filter (hasMatch ?nxt) ?cur \<and>
        state (router (projr ?d)) = state postRouter"
    by auto
  then show ?thesis
    using r ok live cur kept left ms by simp
qed

text \<open>
  C9, as the code has it. On a dispatch whose callback is called with no error and whose
  transition is not aborted, the params of the pending state are the parameters of the
  last match of the final chain, which is the innermost one (\<open>getRootMatch\<close> reads
  the last element); they are the empty object when the final chain is empty.
\<close>

theorem dispatch_pending_params:
  assumes run: "dispatch P r p = Inr w"
    and ok: "Called None why tn \<in> set (events w)"
    and live: "\<not> isAborted (trans w)"
  shows "\<exists>s rs q.
           state r = Some s \<and>
           (let cur = currentChain s;
                leaving = fst (diffMatches cur (nextChain P r p));
                entering = snd (diffMatches cur (nextChain P r p));
                ms = take (length cur - length leaving) cur @ entering
            in nextState (router w) =
                 Some (Resolved ms p rs (if ms = [] then [] else params (last ms)) q))"
  using dispatch_success [OF run ok live]
  by (auto simp: Let_def getRootMatch_def)

text \<open>
  C9 as stated fails: for \<open>/posts/123\<close> the final chain is the application match
  followed by the post match; the pending params are those of the post match, and the
  outermost match has no parameters.
\<close>

theorem dispatch_pending_params_counterexample:
  "\<not> isl (dispatch examplePath exampleRouter ''/posts/123'') \<and>
   events (projr (dispatch examplePath exampleRouter ''/posts/123'')) = [Called None None 0] \<and>
   \<not> isAborted (trans (projr (dispatch examplePath exampleRouter ''/posts/123''))) \<and>
   map (\<lambda>m. (oid (route m), params m))
     (matches (the (nextState (router (projr
        (dispatch examplePath exampleRouter ''/posts/123'')))))) =
     [(0, []), (2, [(''id'', Str ''123'')])] \<and>
   stateParams (the (nextState (router (projr
        (dispatch examplePath exampleRouter ''/posts/123''))))) = [(''id'', Str ''123'')] \<and>
   params (hd (matches (the (nextState (router (projr
        (dispatch examplePath exampleRouter ''/posts/123''))))))) = []"
  by code_simp

text \<open>
  The first dispatch of the nested router: the final chain has three matches and the
  pending params are those of the last one.
\<close>

theorem dispatch_pending_params_witness:
  "\<not> isl (dispatch nestedPath nestedRouter ''/users/1/things/2'') \<and>
   Called None None 0 \<in> set (events (projr
     (dispatch nestedPath nestedRouter ''/users/1/things/2''))) \<and>
   \<not> isAborted (trans (projr (dispatch nestedPath nestedRouter ''/users/1/things/2''))) \<and>
   map (\<lambda>m. oid (route m)) (matches (the (nextState (router (projr
     (dispatch nestedPath nestedRouter ''/users/1/things/2'')))))) = [20, 21, 22] \<and>
   stateParams (the (nextState (router (projr
     (dispatch nestedPath nestedRouter ''/users/1/things/2''))))) =
   params (last (matches (the (nextState (router (projr
     (dispatch nestedPath nestedRouter ''/users/1/things/2'')))))))"
proof -
  let ?d = "dispatch nestedPath nestedRouter ''/users/1/things/2''"
  have r: "\<not> isl ?d" by code_simp
  have ok: "Called None None 0 \<in> set (events (projr ?d))" by code_simp
  have live: "\<not> isAborted (trans (projr ?d))" by code_simp
  have ms: "map (\<lambda>m. oid (route m)) (matches (the (nextState (router (projr ?d))))) =
      [20, 21, 22]"
    by code_simp
  then have ne: "matches (the (nextState (router (projr ?d)))) \<noteq> []"
    by auto
  from dispatch_pending_params [OF ran_projr [OF r] ok live]
  have "stateParams (the (nextState (router (projr ?d)))) =
        params (last (matches (the (nextState (router (projr ?d))))))"
    using ne by (auto simp: Let_def split: if_splits)
  then show ?thesis
    using r ok live ms by simp
qed

section \<open>The order of the hook calls\<close>

lemma hookCalls_append [simp]: "hookCalls (xs @ ys) = hookCalls xs @ hookCalls ys"
  by (simp add: hookCalls_def)

lemma hookCalls_simps [simp]:
  "hookCalls [] = []"
  "hookCalls [Invoked ph i tn b a c] = [(ph, i)]"
  "hookCalls [Settled tn b a] = []"
  "hookCalls [Called err why tn] = []"
  by (simp_all add: hookCalls_def)

lemma proceed_calls:
  assumes "proceed m c w = (m1, w1)"
  shows "hookCalls (events w1) = hookCalls (events w)"
proof (cases c)
  case (Throws e)
  then show ?thesis
    using assms by (auto simp: proceed_def)
next
  case (Returns v)
  show ?thesis
  proof (cases v)
    case None
    then show ?thesis
      using assms Returns by (simp add: proceed_def)
  next
    case (Some q)
    then have "w1 = snd (await q w)"
      using assms Returns by (auto simp: proceed_def split: prod.splits)
    then show ?thesis
      by (simp add: await_base)
  qed
qed

lemma leaveHook_calls:
  assumes "leaveHook x w = (c, w')"
  shows "hookCalls (events w') = hookCalls (events w) \<or>
         hookCalls (events w') = hookCalls (events w) @ [(Leaving, oid (route x))]"
  using assms
  by (auto simp: leaveHook_def takePromise_def split: option.splits if_splits prod.splits)

lemma enterHook_calls:
  assumes "enterHook q x w = (c, w')"
  shows "hookCalls (events w') = hookCalls (events w) \<or>
         hookCalls (events w') = hookCalls (events w) @ [(Entering, oid (route x))]"
  using assms
  by (auto simp: enterHook_def takePromise_def Let_def
      split: option.splits if_splits prod.splits completion.splits)

lemma runSerial_calls:
  assumes keyed: "\<forall>x w c w'. mk x w = (c, w') \<longrightarrow>
             hookCalls (events w') = hookCalls (events w) \<or>
             hookCalls (events w') = hookCalls (events w) @ [key x]"
    and run: "runSerial (map mk xs) m w = (m', w')"
  shows "\<exists>ks. subseq ks (map key xs) \<and> hookCalls (events w') = hookCalls (events w) @ ks"
  using run
proof (induction xs arbitrary: m w)
  case Nil
  then show ?case by simp
next
  case (Cons x xs)
  obtain m1 w1 where step: "stepHook (mk x) m w = (m1, w1)"
    by (cases "stepHook (mk x) m w")
  have first: "hookCalls (events w1) = hookCalls (events w) \<or>
               hookCalls (events w1) = hookCalls (events w) @ [key x]"
    using step
  proof (cases rule: stepHook_cases)
    case idle
    then show ?thesis by simp
  next
    case (now c v)
    then have "hookCalls (events v) = hookCalls (events w) \<or>
               hookCalls (events v) = hookCalls (events w) @ [key x]"
      using keyed by blast
    then show ?thesis
      using proceed_calls [OF now(3)] by simp
  next
    case (later c v)
    then have "hookCalls (events v) = hookCalls (events (tick w)) \<or>
               hookCalls (events v) = hookCalls (events (tick w)) @ [key x]"
      using keyed by blast
    then show ?thesis
      using proceed_calls [OF later(3)] by simp
  qed
  have "runSerial (map mk xs) m1 w1 = (m', w')"
    using Cons.prems step by simp
  from Cons.IH [OF this] obtain ks where
    ks: "subseq ks (map key xs)" "hookCalls (events w') = hookCalls (events w1) @ ks"
    by blast
  from first show ?case
  proof
    assume "hookCalls (events w1) = hookCalls (events w)"
    then have "hookCalls (events w') = hookCalls (events w) @ ks"
      using ks(2) by simp
    moreover have "subseq ks (map key (x # xs))"
      using ks(1) by (simp add: list_emb_Cons)
    ultimately show ?thesis by blast
  next
    assume "hookCalls (events w1) = hookCalls (events w) @ [key x]"
    then have "hookCalls (events w') = hookCalls (events w) @ (key x # ks)"
      using ks(2) by simp
    moreover have "subseq (key x # ks) (map key (x # xs))"
      using ks(1) by simp
    ultimately show ?thesis by blast
  qed
qed

lemma dispatch_phases:
  assumes run: "dispatch P r p = Inr w" and s: "state r = Some s"
  shows "\<exists>m1 w1.
           runSerial (map leaveHook
               (rev (fst (diffMatches (currentChain s) (nextChain P r p)))))
             Sync \<lparr>router = r, trans = newTransition p, turn = 0, events = []\<rparr> = (m1, w1) \<and>
           (hookCalls (events w) = hookCalls (events w1) \<or>
            (\<exists>m2 w2.
               runSerial (map (enterHook (parsedQuery P p))
                   (snd (diffMatches (currentChain s) (nextChain P r p))))
                 Sync (resume m1 w1) = (m2, w2) \<and>
               hookCalls (events w) = hookCalls (events w2)))"
proof -
  define cur where "cur = currentChain s"
  define fromMatches where "fromMatches = fst (diffMatches cur (nextChain P r p))"
  define toMatches where "toMatches = snd (diffMatches cur (nextChain P r p))"
  define q where "q = parsedQuery P p"
  define w0 where "w0 = \<lparr>router = r, trans = newTransition p, turn = 0, events = []\<rparr>"
  obtain m1 w1 where leave: "runSerial (map leaveHook (rev fromMatches)) Sync w0 = (m1, w1)"
    by (cases "runSerial (map leaveHook (rev fromMatches)) Sync w0")
  obtain m2 w2 where enter:
    "runSerial (map (enterHook q) toMatches) Sync (resume m1 w1) = (m2, w2)"
    by (cases "runSerial (map (enterHook q) toMatches) Sync (resume m1 w1)")
  define k2 where "k2 = (\<lambda>error w.
       if truthy error \<or> isAborted (trans w) then callback error w
       else storeNextState cur fromMatches toMatches p q w)"
  have w: "w = finish (\<lambda>error w.
                      if truthy error \<or> isAborted (trans w) then callback error w
                      else finish k2 (runSerial (map (enterHook q) toMatches) Sync w))
                 (m1, w1)"
    using run s leave
    unfolding dispatch_def runTransitionFromHooks_def runTransitionToHooks_def
      runHooks_serial cur_def fromMatches_def toMatches_def q_def w0_def k2_def
    by (simp add: Let_def split_beta)
  have "hookCalls (events w) = hookCalls (events w1) \<or>
        hookCalls (events w) = hookCalls (events w2)"
    using w enter by (auto simp: finish_resume k2_def)
  then show ?thesis
    using leave enter
    unfolding cur_def fromMatches_def toMatches_def q_def w0_def by blast
qed

text \<open>
  The hook calls of a dispatch follow the plan. In every dispatch that does not throw
  on the state slot, the hook calls in the log, in the order they were made, are a
  subsequence of the plan: hooks of leaving matches from the deepest to the outermost,
  then hooks of entering matches from the outermost to the deepest. (A call of the
  plan is missing when the handler has no such hook or when an abort, an error or a
  promise that never settles stopped the dispatch before it.)
\<close>

theorem hooks_follow_the_plan:
  assumes run: "dispatch P r p = Inr w" and s: "state r = Some s"
  shows "subseq (hookCalls (events w))
           (hookPlan (fst (diffMatches (currentChain s) (nextChain P r p)))
                     (snd (diffMatches (currentChain s) (nextChain P r p))))"
proof -
  let ?from = "fst (diffMatches (currentChain s) (nextChain P r p))"
  let ?to = "snd (diffMatches (currentChain s) (nextChain P r p))"
  from dispatch_phases [OF run s] obtain m1 w1 where
    leave: "runSerial (map leaveHook (rev ?from)) Sync
             \<lparr>router = r, trans = newTransition p, turn = 0, events = []\<rparr> = (m1, w1)"
    and rest: "hookCalls (events w) = hookCalls (events w1) \<or>
            (\<exists>m2 w2.
               runSerial (map (enterHook (parsedQuery P p)) ?to) Sync (resume m1 w1) = (m2, w2) \<and>
               hookCalls (events w) = hookCalls (events w2))"
    by blast
  have lk: "\<forall>x w c w'. leaveHook x w = (c, w') \<longrightarrow>
             hookCalls (events w') = hookCalls (events w) \<or>
             hookCalls (events w') = hookCalls (events w) @ [(Leaving, oid (route x))]"
    using leaveHook_calls by blast
  from runSerial_calls
    [where mk = leaveHook and key = "\<lambda>m. (Leaving, oid (route m))", OF lk leave]
  obtain ks where ks: "subseq ks (map (\<lambda>m. (Leaving, oid (route m))) (rev ?from))"
    "hookCalls (events w1) = ks"
    by auto
  from rest show ?thesis
  proof
    assume "hookCalls (events w) = hookCalls (events w1)"
    then show ?thesis
      using ks by (simp add: hookPlan_def list_emb_append2 subseq_rev_drop_many)
  next
    assume "\<exists>m2 w2.
               runSerial (map (enterHook (parsedQuery P p)) ?to) Sync (resume m1 w1) = (m2, w2) \<and>
               hookCalls (events w) = hookCalls (events w2)"
    then obtain m2 w2 where
      enter: "runSerial (map (enterHook (parsedQuery P p)) ?to) Sync (resume m1 w1) = (m2, w2)"
      and w2: "hookCalls (events w) = hookCalls (events w2)"
      by blast
    have ek: "\<forall>x w c w'. enterHook (parsedQuery P p) x w = (c, w') \<longrightarrow>
             hookCalls (events w') = hookCalls (events w) \<or>
             hookCalls (events w') = hookCalls (events w) @ [(Entering, oid (route x))]"
      using enterHook_calls by blast
    from runSerial_calls
      [where mk = "enterHook (parsedQuery P p)" and key = "\<lambda>m. (Entering, oid (route m))",
        OF ek enter]
    obtain js where js: "subseq js (map (\<lambda>m. (Entering, oid (route m))) ?to)"
      "hookCalls (events w2) = hookCalls (events w1) @ js"
      by auto
    show ?thesis
      using ks js w2 by (simp add: hookPlan_def list_emb_append_mono)
  qed
qed

text \<open>
  Leaving the mail and inbox routes for \<open>/about\<close>: the inbox hook, the mail hook,
  then the entering hook of the about route, which is the whole plan.
\<close>

theorem hooks_follow_the_plan_witness:
  "\<not> isl (dispatch examplePath (hookRouter [newMatch mailRoute [], newMatch inboxRoute []])
            ''/about'') \<and>
   hookCalls (events (projr
     (dispatch examplePath (hookRouter [newMatch mailRoute [], newMatch inboxRoute []])
        ''/about''))) = [(Leaving, 11), (Leaving, 10), (Entering, 12)] \<and>
   subseq [(Leaving, 11), (Leaving, 10), (Entering, 12)]
     (hookPlan
        (fst (diffMatches [newMatch mailRoute [], newMatch inboxRoute []]
               (nextChain examplePath
                  (hookRouter [newMatch mailRoute [], newMatch inboxRoute []]) ''/about'')))
        (snd (diffMatches [newMatch mailRoute [], newMatch inboxRoute []]
               (nextChain examplePath
                  (hookRouter [newMatch mailRoute [], newMatch inboxRoute []]) ''/about''))))"
proof -
  let ?cur = "[newMatch mailRoute [], newMatch inboxRoute []]"
  let ?r = "hookRouter ?cur"
  let ?d = "dispatch examplePath ?r ''/about''"
  have r: "\<not> isl ?d" by code_simp
  have calls: "hookCalls (events (projr ?d)) = [(Leaving, 11), (Leaving, 10), (Entering, 12)]"
    by code_simp
  have s: "state ?r = Some (Resolved ?cur [] (map route ?cur) [] [])"
    by (simp add: hookRouter_def)
  show ?thesis
    using r calls hooks_follow_the_plan [OF ran_projr [OF r] s]
    by (simp add: currentChain_def)
qed

section \<open>Waits attached by leaving hooks\<close>

text \<open>
  C5 at a failing input. The current chain is the mail match and the inbox match; the
  inbox handler's leaving hook attaches a promise with \<open>wait\<close>. The closure of
  \<open>runTransitionFromHooks\<close> returns the hook's own return value (line 86), so the
  reduce sees no promise: the leaving hook of the mail route runs at turn 0, the
  leaving phase ends at turn 0, and the entering hook of the about route runs at
  turn 0 as well, with the promise still on the transition. A promise attached at
  turn 0 cannot have settled at turn 0. Only the entering closure picks the promise
  up, which delays the callback.
\<close>

theorem leaving_wait_not_awaited:
  "events (projr (dispatch examplePath
      (hookRouter [newMatch mailRoute [], newMatch inboxRoute []]) ''/about'')) =
   [Invoked Leaving 11 0 (newTransition ''/about'') (wait Fulfils (newTransition ''/about''))
      (Returns None),
    Invoked Leaving 10 0 (wait Fulfils (newTransition ''/about''))
      (wait Fulfils (newTransition ''/about'')) (Returns None),
    Invoked Entering 12 0 (wait Fulfils (newTransition ''/about''))
      (wait Fulfils (newTransition ''/about'')) (Returns None),
    Called None None 2]"
  by code_simp

text \<open>
  The same wait attached by an entering hook is taken by the closure of
  \<open>runTransitionToHooks\<close> (lines 111-114) and delays what follows.
\<close>

theorem entering_wait_awaited:
  "events (projr (dispatch examplePath (hookRouter [newMatch aboutRoute []]) ''/mail/inbox'')) =
   [Invoked Leaving 12 0 (newTransition ''/mail/inbox'') (newTransition ''/mail/inbox'')
      (Returns None),
    Invoked Entering 10 0 (newTransition ''/mail/inbox'') (newTransition ''/mail/inbox'')
      (Returns None),
    Invoked Entering 11 0 (newTransition ''/mail/inbox'')
      (wait Fulfils (newTransition ''/mail/inbox'')) (Returns None),
    Called None None 2]"
  by code_simp

text \<open>
  C8 at a failing input. After the leaving closure has called a hook that attached a
  promise, the promise is still on the transition and the closure has returned the
  hook's return value; the entering closure for the same handler returns the promise
  and leaves none on the transition.
\<close>

theorem leaveHook_keeps_promise:
  "fst (leaveHook (newMatch inboxRoute [])
         \<lparr>router = hookRouter [], trans = newTransition ''/about'', turn = 0, events = []\<rparr>) =
     Returns None \<and>
   promise (trans (snd (leaveHook (newMatch inboxRoute [])
         \<lparr>router = hookRouter [], trans = newTransition ''/about'', turn = 0, events = []\<rparr>))) =
     Some Fulfils \<and>
   fst (enterHook [] (newMatch inboxRoute [])
         \<lparr>router = hookRouter [], trans = newTransition ''/about'', turn = 0, events = []\<rparr>) =
     Returns (Some Fulfils) \<and>
   promise (trans (snd (enterHook [] (newMatch inboxRoute [])
         \<lparr>router = hookRouter [], trans = newTransition ''/about'', turn = 0, events = []\<rparr>))) =
     None"
  by code_simp

end
